theory Spec2Isabelle
  imports Complex_Main
begin

section \<open>Data model of the dungeon generator (src/src/App.tsx)\<close>

text \<open>
  Grid constants of the source. Coordinates, sizes and counters are JavaScript numbers,
  that is doubles, which hold integers here. An \<open>int\<close> stands for the double of that
  value; where an operation of the program can round or overflow, the model rounds
  (section Numbers).
\<close>

definition WIDTH :: int where "WIDTH = 64"
definition HEIGHT :: int where "HEIGHT = 64"
definition ROOM_W_MIN :: int where "ROOM_W_MIN = 4"
definition ROOM_W_MAX :: int where "ROOM_W_MAX = 12"
definition ROOM_H_MIN :: int where "ROOM_H_MIN = 2"
definition ROOM_H_MAX :: int where "ROOM_H_MAX = 10"

lemmas consts_defs = WIDTH_def HEIGHT_def ROOM_W_MIN_def ROOM_W_MAX_def ROOM_H_MIN_def ROOM_H_MAX_def

datatype Tile = WALL | FLOOR

text \<open>\<open>type Room = { x, y, w, h }\<close>; the fields carry the prefix \<open>r_\<close>.\<close>

record Room =
  r_x :: int
  r_y :: int
  r_w :: int
  r_h :: int

text \<open>
  The anonymous \<open>{ x, y }\<close> objects of \<open>centers\<close>; the fields carry the prefix \<open>p_\<close>.
  A coordinate is an integer, or \<open>None\<close> where the sum that computes it has overflowed
  to \<open>Infinity\<close> or \<open>-Infinity\<close>.
\<close>

record Point =
  p_x :: "int option"
  p_y :: "int option"

text \<open>\<open>type Grid = Tile[][]\<close>, indexed \<open>[y][x]\<close>: a list of rows.\<close>

type_synonym Grid = "Tile list list"

text \<open>
  A store \<open>grid[y][x] = v\<close> outside the buffer does not stay inside the data model:
  when row \<open>y\<close> does not exist, \<open>grid[y]\<close> is \<open>undefined\<close> and the store throws a
  TypeError; when the row exists and \<open>x\<close> is not one of its indices, JavaScript grows the
  row or sets a non-index property, so the buffer is no rectangular Grid any more. Both
  outcomes are values of \<open>error\<close>, and every store goes through \<open>setTile\<close>.
\<close>

datatype error = TypeError | OutOfRow

definition setTile :: "Grid \<Rightarrow> int \<Rightarrow> int \<Rightarrow> Tile \<Rightarrow> error + Grid" where
  "setTile grid x y v =
     (if 0 \<le> y \<and> y < int (length grid) then
        (if 0 \<le> x \<and> x < int (length (grid ! nat y))
         then Inr (grid[nat y := (grid ! nat y)[nat x := v]])
         else Inl OutOfRow)
      else Inl TypeError)"

text \<open>Reading \<open>grid[y][x]\<close>; \<open>None\<close> where the cell does not exist.\<close>

definition getTile :: "Grid \<Rightarrow> int \<Rightarrow> int \<Rightarrow> Tile option" where
  "getTile grid x y =
     (if 0 \<le> y \<and> y < int (length grid) \<and> 0 \<le> x \<and> x < int (length (grid ! nat y))
      then Some (grid ! nat y ! nat x) else None)"

section \<open>Numbers\<close>

text \<open>
  A double has 53 significant bits. \<open>roundDouble n\<close> is the double nearest to the
  integer \<open>n\<close>, ties to the even significand, as every arithmetic operation of the
  program rounds its exact result; integers of magnitude up to \<open>2^53\<close> are doubles and
  are left as they are. \<open>bitlen n\<close> is the number of binary digits of \<open>n\<close>.
\<close>

fun bitlen :: "nat \<Rightarrow> nat" where
  "bitlen n = (if n = 0 then 0 else Suc (bitlen (n div 2)))"

declare bitlen.simps [simp del]

definition roundDouble :: "int \<Rightarrow> int" where
  "roundDouble n =
     (let k = bitlen (nat \<bar>n\<bar>)
      in if k \<le> 53 then n
         else
           (let s = 2 ^ (k - 53); q = \<bar>n\<bar> div s; r = \<bar>n\<bar> mod s;
                q' = (if s < 2 * r \<or> (2 * r = s \<and> odd q) then q + 1 else q)
            in sgn n * (q' * s)))"

text \<open>
  The result of an operation whose exact value is the integer \<open>n\<close>: the nearest
  double, or \<open>None\<close> where that is beyond the largest double and the operation gives
  \<open>Infinity\<close> or \<open>-Infinity\<close>.
\<close>

definition jsNum :: "int \<Rightarrow> int option" where
  "jsNum n = (let m = roundDouble n in if 2 ^ 1024 \<le> \<bar>m\<bar> then None else Some m)"

text \<open>
  \<open>x++\<close> on a loop counter: \<open>x + 1\<close> rounded. From \<open>2^53\<close> on the counter does not
  advance; the result is never infinite.
\<close>

definition jsInc :: "int \<Rightarrow> int" where
  "jsInc x = roundDouble (x + 1)"

text \<open>
  \<open>Math.floor(a + b / 2)\<close> for integers \<open>a\<close> and \<open>b\<close>. The quotient \<open>b / 2\<close> is exact;
  the sum \<open>a + b / 2\<close> is half of the integer \<open>2 * a + b\<close> and is rounded as that integer
  is, a factor of two only changing the exponent; \<open>Math.floor\<close> of a double is exact.
  \<open>None\<close> where the sum overflows.
\<close>

definition floorHalfSum :: "int \<Rightarrow> int \<Rightarrow> int option" where
  "floorHalfSum a b =
     (let m = roundDouble (2 * a + b) in if 2 ^ 1025 \<le> \<bar>m\<bar> then None else Some (m div 2))"

text \<open>
  \<open>Math.abs(u - v)\<close> for two coordinates: \<open>None\<close> where the result is no finite number,
  which is \<open>Infinity\<close> or, for the difference of two equal infinities, \<open>NaN\<close>.
\<close>

definition jsAbsDiff :: "int option \<Rightarrow> int option \<Rightarrow> int option" where
  "jsAbsDiff u v =
     (case (u, v) of
        (Some a, Some b) \<Rightarrow> map_option abs (jsNum (a - b))
      | _ \<Rightarrow> None)"

section \<open>RandomSource\<close>

text \<open>
  \<open>Math.random()\<close> is the only nondeterminism. A run of the program is modelled against
  a scripted sequence \<open>rs :: nat \<Rightarrow> real\<close> of its results and a position \<open>k\<close> of the next
  draw, which each function that draws returns advanced. A draw is a real number of the
  half-open unit interval (\<open>unitDraws\<close>); the rounding of the double product inside
  \<open>randInt\<close> is not modelled, it never leaves the range \<open>min .. max\<close>.
\<close>

type_synonym RandomSource = "nat \<Rightarrow> real"

definition unitDraws :: "RandomSource \<Rightarrow> bool" where
  "unitDraws rs = (\<forall>k. 0 \<le> rs k \<and> rs k < 1)"

text \<open>\<open>randInt(min, max)\<close> at the draw \<open>u\<close>.\<close>

definition randInt :: "int \<Rightarrow> int \<Rightarrow> real \<Rightarrow> int" where
  "randInt mn mx u = \<lfloor>u * of_int (mx - mn + 1)\<rfloor> + mn"

section \<open>GridBuffer\<close>

definition createGrid :: "int \<Rightarrow> int \<Rightarrow> Tile \<Rightarrow> Grid" where
  "createGrid gw gh fill = replicate (nat gh) (replicate (nat gw) fill)"

definition inBounds :: "int \<Rightarrow> int \<Rightarrow> bool" where
  "inBounds cx cy = (cx \<ge> 0 \<and> cy \<ge> 0 \<and> cx < WIDTH \<and> cy < HEIGHT)"

section \<open>RoomPlacer\<close>

definition roomsOverlap :: "Room \<Rightarrow> Room \<Rightarrow> bool" where
  "roomsOverlap a b =
     (\<not> (r_x a + r_w a + 1 \<le> r_x b \<or> r_x b + r_w b + 1 \<le> r_x a \<or>
         r_y a + r_h a + 1 \<le> r_y b \<or> r_y b + r_h b + 1 \<le> r_y a))"

text \<open>
  The inner loop \<open>for (xx = x; xx < x + w; xx++) grid[yy][xx] = FLOOR\<close>, from \<open>xx\<close> on.
  The loops of \<open>placeRooms\<close> only run on the values that \<open>randInt\<close> returns for the
  bounds of the source and draws from the unit interval, all below 64, where \<open>xx++\<close>,
  \<open>yy++\<close>, \<open>x + w\<close> and \<open>y + h\<close> are exact.
\<close>

function placeRooms_row :: "Grid \<Rightarrow> int \<Rightarrow> int \<Rightarrow> int \<Rightarrow> error + Grid" where
  "placeRooms_row grid yy xx xend =
     (if xx < xend then
        (case setTile grid xx yy FLOOR of
           Inl e \<Rightarrow> Inl e
         | Inr g \<Rightarrow> placeRooms_row g yy (xx + 1) xend)
      else Inr grid)"
  by pat_completeness auto
termination
  by (relation "measure (\<lambda>(grid, yy, xx, xend). nat (xend - xx))") auto

declare placeRooms_row.simps [simp del]

text \<open>The outer loop \<open>for (yy = y; yy < y + h; yy++)\<close>, from \<open>yy\<close> on.\<close>

function placeRooms_rows :: "Grid \<Rightarrow> int \<Rightarrow> int \<Rightarrow> int \<Rightarrow> int \<Rightarrow> error + Grid" where
  "placeRooms_rows grid yy yend x0 xend =
     (if yy < yend then
        (case placeRooms_row grid yy x0 xend of
           Inl e \<Rightarrow> Inl e
         | Inr g \<Rightarrow> placeRooms_rows g (yy + 1) yend x0 xend)
      else Inr grid)"
  by pat_completeness auto
termination
  by (relation "measure (\<lambda>(grid, yy, yend, x0, xend). nat (yend - yy))") auto

declare placeRooms_rows.simps [simp del]

text \<open>
  The \<open>while\<close> loop of \<open>placeRooms\<close>. Its state is the grid, the local variables
  \<open>rooms\<close> and \<open>attempts\<close>, and the position \<open>k\<close> in the random sequence; an iteration
  draws \<open>w\<close>, \<open>h\<close>, \<open>x\<close>, \<open>y\<close> in this order. The final state is returned whole, so
  that the number of iterations made (\<open>attempts\<close>) can be read off.
\<close>

function placeRooms_loop ::
  "RandomSource \<Rightarrow> int \<Rightarrow> Grid \<Rightarrow> Room list \<Rightarrow> int \<Rightarrow> nat \<Rightarrow> error + (Grid \<times> Room list \<times> int \<times> nat)"
where
  "placeRooms_loop rs roomCount grid rooms attempts k =
     (if int (length rooms) < roomCount \<and> attempts < 200 then
        (let w = randInt ROOM_W_MIN ROOM_W_MAX (rs k);
             h = randInt ROOM_H_MIN ROOM_H_MAX (rs (k + 1));
             x = randInt 2 (WIDTH - w - 3) (rs (k + 2));
             y = randInt 2 (HEIGHT - h - 3) (rs (k + 3));
             candidate = \<lparr>r_x = x, r_y = y, r_w = w, r_h = h\<rparr>
         in if list_ex (\<lambda>r. roomsOverlap r candidate) rooms
            then placeRooms_loop rs roomCount grid rooms (attempts + 1) (k + 4)
            else (case placeRooms_rows grid y (y + h) x (x + w) of
                    Inl e \<Rightarrow> Inl e
                  | Inr g \<Rightarrow>
                      placeRooms_loop rs roomCount g (rooms @ [candidate]) (attempts + 1) (k + 4)))
      else Inr (grid, rooms, attempts, k))"
  by pat_completeness auto
termination
  by (relation "measure (\<lambda>(rs, roomCount, grid, rooms, attempts, k). nat (200 - attempts))") auto

declare placeRooms_loop.simps [simp del]

text \<open>\<open>placeRooms(grid, roomCount)\<close>: the rooms, with the mutated grid and the new position.\<close>

definition placeRooms :: "RandomSource \<Rightarrow> nat \<Rightarrow> Grid \<Rightarrow> int \<Rightarrow> error + (Room list \<times> Grid \<times> nat)" where
  "placeRooms rs k grid roomCount =
     (case placeRooms_loop rs roomCount grid [] 0 k of
        Inl e \<Rightarrow> Inl e
      | Inr (g, rooms, attempts, k') \<Rightarrow> Inr (rooms, g, k'))"

section \<open>CorridorCarver\<close>

text \<open>
  The loop \<open>for (x = lo; x <= hi; x++) if (inBounds(x, y)) grid[y][x] = FLOOR\<close>, from
  \<open>x\<close> on. The counter is a double: where \<open>x++\<close> does not advance it the loop runs
  forever, which is the result \<open>None\<close>.
\<close>

partial_function (option) carveLineH_loop :: "Grid \<Rightarrow> int \<Rightarrow> int \<Rightarrow> int \<Rightarrow> (error + Grid) option" where
  "carveLineH_loop grid x hi y =
     (if x \<le> hi then
        (case (if inBounds x y then setTile grid x y FLOOR else Inr grid) of
           Inl e \<Rightarrow> Some (Inl e)
         | Inr g \<Rightarrow> carveLineH_loop g (jsInc x) hi y)
      else Some (Inr grid))"

definition carveLineH :: "Grid \<Rightarrow> int \<Rightarrow> int \<Rightarrow> int \<Rightarrow> (error + Grid) option" where
  "carveLineH grid x1 x2 y =
     (let (lo, hi) = (if x1 \<le> x2 then (x1, x2) else (x2, x1))
      in carveLineH_loop grid lo hi y)"

partial_function (option) carveLineV_loop :: "Grid \<Rightarrow> int \<Rightarrow> int \<Rightarrow> int \<Rightarrow> (error + Grid) option" where
  "carveLineV_loop grid y hi x =
     (if y \<le> hi then
        (case (if inBounds x y then setTile grid x y FLOOR else Inr grid) of
           Inl e \<Rightarrow> Some (Inl e)
         | Inr g \<Rightarrow> carveLineV_loop g (jsInc y) hi x)
      else Some (Inr grid))"

definition carveLineV :: "Grid \<Rightarrow> int \<Rightarrow> int \<Rightarrow> int \<Rightarrow> (error + Grid) option" where
  "carveLineV grid y1 y2 x =
     (let (lo, hi) = (if y1 \<le> y2 then (y1, y2) else (y2, y1))
      in carveLineV_loop grid lo hi x)"

text \<open>
  \<open>carveCorridor\<close> at the draw \<open>u\<close> of its one call of \<open>Math.random()\<close>. The second
  run starts when the first has returned.
\<close>

definition carveCorridor :: "Grid \<Rightarrow> int \<Rightarrow> int \<Rightarrow> int \<Rightarrow> int \<Rightarrow> real \<Rightarrow> (error + Grid) option" where
  "carveCorridor grid x1 y1 x2 y2 u =
     (let firstHorizontal = (u < 0.5)
      in if firstHorizontal then
           (case carveLineH grid x1 x2 y1 of
              None \<Rightarrow> None
            | Some (Inl e) \<Rightarrow> Some (Inl e)
            | Some (Inr g) \<Rightarrow> carveLineV g y1 y2 x2)
         else
           (case carveLineV grid y1 y2 x1 of
              None \<Rightarrow> None
            | Some (Inl e) \<Rightarrow> Some (Inl e)
            | Some (Inr g) \<Rightarrow> carveLineH g x1 x2 y2))"

section \<open>DungeonConnector\<close>

text \<open>
  The center of a room, as the \<open>rooms.map\<close> of the connector computes it:
  \<open>Math.floor(r.x + r.w / 2)\<close> and \<open>Math.floor(r.y + r.h / 2)\<close>, in doubles.
\<close>

definition center :: "Room \<Rightarrow> Point" where
  "center r = \<lparr>p_x = floorHalfSum (r_x r) (r_w r), p_y = floorHalfSum (r_y r) (r_h r)\<rparr>"

text \<open>
  \<open>centers[i]\<close> followed by a field access: where \<open>i\<close> is no index of the array the
  element is \<open>undefined\<close> and the access throws a TypeError.
\<close>

definition lookup :: "'a list \<Rightarrow> int \<Rightarrow> error + 'a" where
  "lookup xs i = (if 0 \<le> i \<and> i < int (length xs) then Inr (xs ! nat i) else Inl TypeError)"

text \<open>
  The \<open>Set<number>\<close> \<open>connected\<close> (here \<open>conn\<close>) is a list without repetition in
  insertion order, the order in which \<open>for (const a of connected)\<close> visits it; \<open>size\<close>
  is its length.
\<close>

definition setAdd :: "nat list \<Rightarrow> nat \<Rightarrow> nat list" where
  "setAdd s v = (if v \<in> set s then s else s @ [v])"

text \<open>
  The distance \<open>d\<close> of the search,
  \<open>Math.abs(p.x - q.x) + Math.abs(p.y - q.y)\<close>, in doubles: \<open>None\<close> where it is no
  finite number (\<open>Infinity\<close> or \<open>NaN\<close>).
\<close>

definition jsDist :: "Point \<Rightarrow> Point \<Rightarrow> int option" where
  "jsDist p q =
     (case (jsAbsDiff (p_x p) (p_x q), jsAbsDiff (p_y p) (p_y q)) of
        (Some dx, Some dy) \<Rightarrow> jsNum (dx + dy)
      | _ \<Rightarrow> None)"

text \<open>
  The three variables of the search. \<open>bestDist\<close> starts as \<open>Infinity\<close>, which is \<open>None\<close>,
  and is otherwise finite. \<open>distLess d bestDist\<close> is the test \<open>d < bestDist\<close>, which is
  false for a \<open>d\<close> that is \<open>Infinity\<close> or \<open>NaN\<close>.
\<close>

record Best =
  bestA :: int
  bestB :: int
  bestDist :: "int option"

definition distLess :: "int option \<Rightarrow> int option \<Rightarrow> bool" where
  "distLess d bd =
     (case d of
        None \<Rightarrow> False
      | Some v \<Rightarrow> (case bd of None \<Rightarrow> True | Some w \<Rightarrow> v < w))"

text \<open>The inner loop \<open>for (let b = 0; b < centers.length; b++)\<close> for one \<open>a\<close>, from \<open>b\<close> on.\<close>

function scan_b :: "Point list \<Rightarrow> nat list \<Rightarrow> nat \<Rightarrow> nat \<Rightarrow> Best \<Rightarrow> error + Best" where
  "scan_b centers conn a b best =
     (if b < length centers then
        (if b \<in> set conn then scan_b centers conn a (b + 1) best
         else
           (case lookup centers (int a) of
              Inl e \<Rightarrow> Inl e
            | Inr ca \<Rightarrow>
                (let d = jsDist ca (centers ! b)
                 in if distLess d (bestDist best)
                    then scan_b centers conn a (b + 1)
                           \<lparr>bestA = int a, bestB = int b, bestDist = d\<rparr>
                    else scan_b centers conn a (b + 1) best)))
      else Inr best)"
  by pat_completeness auto
termination
  by (relation "measure (\<lambda>(centers, conn, a, b, best). length centers - b)") auto

declare scan_b.simps [simp del]

text \<open>The outer loop \<open>for (const a of connected)\<close> over the elements still to visit.\<close>

fun scan_a :: "Point list \<Rightarrow> nat list \<Rightarrow> nat list \<Rightarrow> Best \<Rightarrow> error + Best" where
  "scan_a centers conn [] best = Inr best"
| "scan_a centers conn (a # rest) best =
     (case scan_b centers conn a 0 best of
        Inl e \<Rightarrow> Inl e
      | Inr best' \<Rightarrow> scan_a centers conn rest best')"

definition findBest :: "Point list \<Rightarrow> nat list \<Rightarrow> error + Best" where
  "findBest centers conn =
     scan_a centers conn conn \<lparr>bestA = - 1, bestB = - 1, bestDist = None\<rparr>"

subsection \<open>The search only ever selects an unconnected index\<close>

text \<open>
  An invariant rule for the inner loop: a property of the position \<open>b\<close> and the search
  variables that holds at the start and is kept by both kinds of iteration holds at
  the end.
\<close>

lemma scan_b_inv:
  assumes run: "scan_b centers conn a b best = Inr best'"
    and init: "I b best"
    and skip: "\<And>b best. b < length centers \<Longrightarrow> b \<in> set conn \<Longrightarrow> I b best \<Longrightarrow> I (b + 1) best"
    and visit: "\<And>b best. b < length centers \<Longrightarrow> b \<notin> set conn \<Longrightarrow> a < length centers \<Longrightarrow> I b best \<Longrightarrow>
        I (b + 1) (if distLess (jsDist (centers ! a) (centers ! b)) (bestDist best)
                   then \<lparr>bestA = int a, bestB = int b,
                         bestDist = jsDist (centers ! a) (centers ! b)\<rparr>
                   else best)"
  shows "I (max b (length centers)) best'"
  using run init
proof (induction "length centers - b" arbitrary: b best)
  case 0
  then show ?case by (simp add: max_def scan_b.simps[of centers conn a b])
next
  case (Suc n)
  then have b: "b < length centers" by simp
  have n: "n = length centers - (b + 1)" using Suc.hyps(2) by simp
  have mx: "max (b + 1) (length centers) = max b (length centers)"
    using b by simp
  show ?case
  proof (cases "b \<in> set conn")
    case True
    have "scan_b centers conn a (b + 1) best = Inr best'"
      using Suc.prems(1) b True by (simp add: scan_b.simps[of centers conn a b])
    from Suc.hyps(1)[OF n this skip[OF b True Suc.prems(2)]] mx
    show ?thesis by simp
  next
    case False
    note nb = False
    from b nb Suc.prems(1) obtain ca where ca: "lookup centers (int a) = Inr ca"
      by (cases "lookup centers (int a)") (simp_all add: scan_b.simps[of centers conn a b])
    then have a: "a < length centers" and ca_eq: "ca = centers ! a"
      by (auto simp: lookup_def split: if_splits)
    define d where "d = jsDist (centers ! a) (centers ! b)"
    have dm: "jsDist ca (centers ! b) = d"
      by (simp add: d_def ca_eq)
    note step = visit[OF b nb a Suc.prems(2), folded d_def]
    show ?thesis
    proof (cases "distLess d (bestDist best)")
      case True
      have "scan_b centers conn a (b + 1) \<lparr>bestA = int a, bestB = int b, bestDist = d\<rparr> = Inr best'"
        using Suc.prems(1) b nb ca True by (simp add: dm Let_def scan_b.simps[of centers conn a b])
      from Suc.hyps(1)[OF n this] step True mx
      show ?thesis by simp
    next
      case False
      have "scan_b centers conn a (b + 1) best = Inr best'"
        using Suc.prems(1) b nb ca False by (simp add: dm Let_def scan_b.simps[of centers conn a b])
      from Suc.hyps(1)[OF n this] step False mx
      show ?thesis by simp
    qed
  qed
qed

lemma scan_b_fresh:
  assumes "scan_b centers conn a b best = Inr best'"
    and "bestB best = - 1 \<or> (0 \<le> bestB best \<and> nat (bestB best) \<notin> set conn)"
  shows "bestB best' = - 1 \<or> (0 \<le> bestB best' \<and> nat (bestB best') \<notin> set conn)"
  using scan_b_inv[where I = "\<lambda>_ bst. bestB bst = - 1 \<or> (0 \<le> bestB bst \<and> nat (bestB bst) \<notin> set conn)", OF assms]
  by simp

lemma scan_a_fresh:
  assumes "scan_a centers conn rest best = Inr best'"
    and "bestB best = - 1 \<or> (0 \<le> bestB best \<and> nat (bestB best) \<notin> set conn)"
  shows "bestB best' = - 1 \<or> (0 \<le> bestB best' \<and> nat (bestB best') \<notin> set conn)"
  using assms
proof (induction rest arbitrary: best)
  case Nil
  then show ?case by simp
next
  case (Cons a rest)
  from Cons.prems(1) obtain b1 where b1: "scan_b centers conn a 0 best = Inr b1"
    and r: "scan_a centers conn rest b1 = Inr best'"
    by (cases "scan_b centers conn a 0 best") simp_all
  from scan_b_fresh[OF b1 Cons.prems(2)] Cons.IH[OF r] show ?case by blast
qed

lemma findBest_fresh:
  assumes "findBest centers conn = Inr best" and "bestB best \<noteq> - 1"
  shows "0 \<le> bestB best \<and> nat (bestB best) \<notin> set conn"
  using scan_a_fresh[OF assms(1)[unfolded findBest_def]] assms(2) by simp

lemma length_setAdd_fresh: "v \<notin> set s \<Longrightarrow> length (setAdd s v) = Suc (length s)"
  by (simp add: setAdd_def)

subsection \<open>The connector's loop\<close>

text \<open>
  The arguments of the call \<open>carveCorridor(grid, ca.x, ca.y, cb.x, cb.y)\<close>, when all four
  are finite.
\<close>

definition endpoints :: "Point \<Rightarrow> Point \<Rightarrow> (int \<times> int \<times> int \<times> int) option" where
  "endpoints ca cb =
     (case (p_x ca, p_y ca, p_x cb, p_y cb) of
        (Some x1, Some y1, Some x2, Some y2) \<Rightarrow> Some (x1, y1, x2, y2)
      | _ \<Rightarrow> None)"

text \<open>
  The \<open>while (connected.size < centers.length)\<close> loop. Its state is the grid, the set
  \<open>conn\<close> and the position \<open>k\<close> in the random sequence. Two components are added for the
  statements about the run and are never read by the loop: \<open>carved\<close>, the list of the
  pairs \<open>(bestA, bestB)\<close> for which \<open>carveCorridor\<close> was called, in order, and the flag of
  the result, which is \<open>True\<close> when the loop was left through \<open>break\<close>. The loop does
  not return (\<open>None\<close>) when a call of \<open>carveCorridor\<close> does not; that is also so for a
  call with an infinite coordinate, where the run along that coordinate never ends (no
  pair with such a center is ever found, its distances being no finite numbers).
\<close>

function connect_loop ::
  "RandomSource \<Rightarrow> Point list \<Rightarrow> Grid \<Rightarrow> nat list \<Rightarrow> nat \<Rightarrow> (nat \<times> nat) list \<Rightarrow>
     (error + (Grid \<times> nat list \<times> nat \<times> (nat \<times> nat) list \<times> bool)) option"
where
  "connect_loop rs centers grid conn k carved =
     (if length conn < length centers then
        (case findBest centers conn of
           Inl e \<Rightarrow> Some (Inl e)
         | Inr best \<Rightarrow>
             if bestA best \<noteq> - 1 \<and> bestB best \<noteq> - 1 then
               (case lookup centers (bestA best) of
                  Inl e \<Rightarrow> Some (Inl e)
                | Inr ca \<Rightarrow>
                    (case lookup centers (bestB best) of
                       Inl e \<Rightarrow> Some (Inl e)
                     | Inr cb \<Rightarrow>
                         (case endpoints ca cb of
                            None \<Rightarrow> None
                          | Some (x1, y1, x2, y2) \<Rightarrow>
                              (case carveCorridor grid x1 y1 x2 y2 (rs k) of
                                 None \<Rightarrow> None
                               | Some (Inl e) \<Rightarrow> Some (Inl e)
                               | Some (Inr g) \<Rightarrow>
                                   connect_loop rs centers g (setAdd conn (nat (bestB best)))
                                     (k + 1) (carved @ [(nat (bestA best), nat (bestB best))])))))
             else Some (Inr (grid, conn, k, carved, True)))
      else Some (Inr (grid, conn, k, carved, False)))"
  by pat_completeness auto
termination
proof (relation "measure (\<lambda>(rs, centers, grid, conn, k, carved). length centers - length conn)")
  show "wf (measure (\<lambda>(rs, centers, grid, conn, k, carved). length centers - length conn))"
    by simp
next
  fix rs :: RandomSource and centers :: "Point list" and grid :: Grid and conn :: "nat list"
    and k :: nat and carved :: "(nat \<times> nat) list" and best :: Best and g :: Grid
  assume lt: "length conn < length centers"
    and fb: "findBest centers conn = Inr best"
    and found: "bestA best \<noteq> - 1 \<and> bestB best \<noteq> - 1"
  from findBest_fresh[OF fb] found have "nat (bestB best) \<notin> set conn" by simp
  then have "length (setAdd conn (nat (bestB best))) = Suc (length conn)"
    by (rule length_setAdd_fresh)
  with lt show "((rs, centers, g, setAdd conn (nat (bestB best)), k + 1,
                  carved @ [(nat (bestA best), nat (bestB best))]),
                 (rs, centers, grid, conn, k, carved))
                \<in> measure (\<lambda>(rs, centers, grid, conn, k, carved). length centers - length conn)"
    by simp
qed

declare connect_loop.simps [simp del]

text \<open>
  \<open>connectRoomsWithCorridors(grid, rooms)\<close> with the two added components of the loop.
\<close>

definition connect_trace ::
  "RandomSource \<Rightarrow> nat \<Rightarrow> Grid \<Rightarrow> Room list \<Rightarrow>
     (error + (Grid \<times> nat \<times> (nat \<times> nat) list \<times> bool)) option"
where
  "connect_trace rs k grid rooms =
     (if length rooms = 0 then Some (Inr (grid, k, [], False))
      else
        (let centers = map center rooms
         in case connect_loop rs centers grid [0] k [] of
              None \<Rightarrow> None
            | Some (Inl e) \<Rightarrow> Some (Inl e)
            | Some (Inr (g, conn, k', carved, stopped)) \<Rightarrow> Some (Inr (g, k', carved, stopped))))"

text \<open>\<open>connectRoomsWithCorridors(grid, rooms)\<close>: the mutated grid and the new position.\<close>

definition connectRoomsWithCorridors ::
  "RandomSource \<Rightarrow> nat \<Rightarrow> Grid \<Rightarrow> Room list \<Rightarrow> (error + (Grid \<times> nat)) option"
where
  "connectRoomsWithCorridors rs k grid rooms =
     (case connect_trace rs k grid rooms of
        None \<Rightarrow> None
      | Some (Inl e) \<Rightarrow> Some (Inl e)
      | Some (Inr (g, k', carved, stopped)) \<Rightarrow> Some (Inr (g, k')))"

section \<open>DungeonGenerator\<close>

text \<open>The result object \<open>{ grid, rooms }\<close>; the fields carry the prefix \<open>d_\<close>.\<close>

record Dungeon =
  d_grid :: Grid
  d_rooms :: "Room list"

text \<open>
  \<open>generateDungeon(roomCount)\<close>, started at position \<open>k\<close> of the random sequence;
  \<open>None\<close> when the connector does not return.
\<close>

definition generateDungeon ::
  "RandomSource \<Rightarrow> nat \<Rightarrow> int \<Rightarrow> (error + (Dungeon \<times> nat)) option" where
  "generateDungeon rs k roomCount =
     (let grid = createGrid WIDTH HEIGHT WALL
      in case placeRooms rs k grid roomCount of
           Inl e \<Rightarrow> Some (Inl e)
         | Inr (rooms, g1, k1) \<Rightarrow>
             (case connectRoomsWithCorridors rs k1 g1 rooms of
                None \<Rightarrow> None
              | Some (Inl e) \<Rightarrow> Some (Inl e)
              | Some (Inr (g2, k2)) \<Rightarrow> Some (Inr (\<lparr>d_grid = g2, d_rooms = rooms\<rparr>, k2))))"

section \<open>Where the rounding is exact, and where the counter stops\<close>

lemma bitlen_le: "bitlen n \<le> k \<longleftrightarrow> n < 2 ^ k"
proof (induction n arbitrary: k rule: bitlen.induct)
  case (1 n)
  show ?case
  proof (cases "n = 0")
    case True
    then show ?thesis by (simp add: bitlen.simps[of 0])
  next
    case False
    show ?thesis
    proof (cases k)
      case 0
      with False show ?thesis by (simp add: bitlen.simps[of n])
    next
      case (Suc j)
      have "bitlen n \<le> Suc j \<longleftrightarrow> bitlen (n div 2) \<le> j"
        using False by (simp add: bitlen.simps[of n])
      also have "\<dots> \<longleftrightarrow> n div 2 < 2 ^ j" by (rule "1.IH"[OF False])
      also have "\<dots> \<longleftrightarrow> n < 2 ^ Suc j" by auto
      finally show ?thesis using Suc by simp
    qed
  qed
qed

lemma roundDouble_small: "\<bar>n\<bar> < 2 ^ 53 \<Longrightarrow> roundDouble n = n"
proof -
  assume "\<bar>n\<bar> < 2 ^ 53"
  then have "nat \<bar>n\<bar> < 2 ^ 53" by (simp add: nat_less_iff)
  then have "bitlen (nat \<bar>n\<bar>) \<le> 53" by (simp add: bitlen_le)
  then show ?thesis by (simp add: roundDouble_def)
qed

lemma roundDouble_2_53: "roundDouble 9007199254740992 = 9007199254740992"
  by (simp add: roundDouble_def bitlen.simps Let_def)

lemma roundDouble_2_53_neg: "roundDouble (- 9007199254740992) = - 9007199254740992"
  by (simp add: roundDouble_def bitlen.simps Let_def)

lemma roundDouble_exact: "\<bar>n\<bar> \<le> 2 ^ 53 \<Longrightarrow> roundDouble n = n"
proof -
  assume "\<bar>n\<bar> \<le> 2 ^ 53"
  then have "\<bar>n\<bar> < 2 ^ 53 \<or> n = 9007199254740992 \<or> n = - 9007199254740992"
    by simp arith
  then show ?thesis
    by (auto simp: roundDouble_small roundDouble_2_53 roundDouble_2_53_neg)
qed

lemma jsInc_exact: "- (2 ^ 53) \<le> x \<Longrightarrow> x < 2 ^ 53 \<Longrightarrow> jsInc x = x + 1"
  unfolding jsInc_def by (rule roundDouble_exact) (simp add: abs_le_iff)

lemma jsInc_stuck: "jsInc 9007199254740992 = 9007199254740992"
  by (simp add: jsInc_def roundDouble_def bitlen.simps Let_def)

lemma jsNum_exact: "\<bar>n\<bar> \<le> 2 ^ 53 \<Longrightarrow> jsNum n = Some n"
  by (simp add: jsNum_def roundDouble_exact Let_def)

lemma floorHalfSum_exact:
  assumes "\<bar>2 * a + b\<bar> \<le> 2 ^ 53"
  shows "floorHalfSum a b = Some (a + b div 2)"
proof -
  have "(2 * a + b) div 2 = a + b div 2" by simp
  with assms show ?thesis
    by (simp add: floorHalfSum_def roundDouble_exact Let_def)
qed

text \<open>
  An integer of magnitude \<open>2^53\<close> or more is rounded to one of magnitude \<open>2^52\<close> or
  more and of the same sign. So a counter below a small bound \<open>c\<close> reaches no value
  above \<open>c\<close> without visiting \<open>c\<close>, and a counter above \<open>c\<close> stays above.
\<close>

lemma roundDouble_big:
  assumes "2 ^ 53 \<le> \<bar>n\<bar>"
  shows "\<exists>v. 2 ^ 52 \<le> v \<and> roundDouble n = sgn n * v"
proof -
  define k where "k = bitlen (nat \<bar>n\<bar>)"
  define s :: int where "s = 2 ^ (k - 53)"
  define q where "q = \<bar>n\<bar> div s"
  define r where "r = \<bar>n\<bar> mod s"
  define q' where "q' = (if s < 2 * r \<or> (2 * r = s \<and> odd q) then q + 1 else q)"
  from assms have "\<not> nat \<bar>n\<bar> < 2 ^ 53" by (simp add: nat_less_iff)
  then have k: "\<not> k \<le> 53" by (simp add: k_def bitlen_le)
  then have "\<not> bitlen (nat \<bar>n\<bar>) \<le> k - 1" by (simp add: k_def)
  then have "\<not> nat \<bar>n\<bar> < 2 ^ (k - 1)" by (simp add: bitlen_le)
  then have "(2 :: nat) ^ (k - 1) \<le> nat \<bar>n\<bar>" by simp
  then have "int (2 ^ (k - 1)) \<le> \<bar>n\<bar>" by (simp only: le_nat_iff[OF abs_ge_zero])
  then have lo: "2 ^ (k - 1) \<le> \<bar>n\<bar>" by simp
  have s: "0 < s" "1 \<le> s" by (simp_all add: s_def)
  from k have "k - 1 = 52 + (k - 53)" by simp
  then have "(2 :: int) ^ (k - 1) = 2 ^ 52 * s" by (simp only: power_add s_def)
  with lo have "2 ^ 52 * s \<le> \<bar>n\<bar>" by simp
  from zdiv_mono1[OF this s(1)] s have q: "2 ^ 52 \<le> q" by (simp add: q_def)
  then have q': "2 ^ 52 \<le> q'" by (simp add: q'_def)
  have "2 ^ 52 * 1 \<le> q' * s" using q' s(2) by (intro mult_mono) simp_all
  then have v: "2 ^ 52 \<le> q' * s" by simp
  from k have "roundDouble n = sgn n * (q' * s)"
    by (simp add: roundDouble_def Let_def k_def[symmetric] s_def[symmetric] q_def[symmetric]
        r_def[symmetric] q'_def)
  with v show ?thesis by blast
qed

lemma jsInc_le_small:
  assumes "0 \<le> c" and "c < 2 ^ 52"
  shows "jsInc x \<le> c \<longleftrightarrow> x < c"
proof -
  consider "\<bar>x + 1\<bar> \<le> 2 ^ 53" | "2 ^ 53 < x + 1" | "x + 1 < - (2 ^ 53)" by linarith
  then show ?thesis
  proof cases
    case 1
    then show ?thesis by (auto simp: jsInc_def roundDouble_exact)
  next
    case 2
    then have "2 ^ 53 \<le> \<bar>x + 1\<bar>" by simp
    from roundDouble_big[OF this] 2 obtain v where "2 ^ 52 \<le> v" "jsInc x = v"
      by (auto simp: jsInc_def)
    with assms 2 show ?thesis by simp
  next
    case 3
    then have "2 ^ 53 \<le> \<bar>x + 1\<bar>" by simp
    from roundDouble_big[OF this] 3 obtain v where "2 ^ 52 \<le> v" "jsInc x = - v"
      by (auto simp: jsInc_def)
    with assms 3 show ?thesis by simp
  qed
qed

text \<open>A power of two is a double, whatever its size.\<close>

lemma bitlen_pow2: "bitlen (2 ^ k) = Suc k"
proof -
  have "bitlen (2 ^ k) \<le> Suc k" by (simp add: bitlen_le)
  moreover have "\<not> bitlen (2 ^ k) \<le> k" by (simp add: bitlen_le)
  ultimately show ?thesis by arith
qed

lemma roundDouble_scaled:
  assumes k: "bitlen (nat \<bar>n\<bar>) = Suc k" and big: "\<not> k \<le> 52"
    and m: "\<bar>n\<bar> = m * 2 ^ (k - 52)"
  shows "roundDouble n = n"
proof -
  define s :: int where "s = 2 ^ (k - 52)"
  define q where "q = \<bar>n\<bar> div s"
  define r where "r = \<bar>n\<bar> mod s"
  define q' where "q' = (if s < 2 * r \<or> (2 * r = s \<and> odd q) then q + 1 else q)"
  from big have "\<not> Suc k \<le> 53" by simp
  then have rd: "roundDouble n = sgn n * (q' * s)"
    by (simp add: roundDouble_def Let_def k s_def[symmetric] q_def[symmetric]
        r_def[symmetric] q'_def)
  note s = s_def
  then have s0: "0 < s" by simp
  from m s have n: "\<bar>n\<bar> = m * s" by simp
  with s0 have "q = m" "r = 0" by (simp_all add: q_def r_def)
  with s0 have "q' = m" by (simp add: q'_def)
  with rd n have "roundDouble n = sgn n * \<bar>n\<bar>" by simp
  then show ?thesis by (simp add: mult_sgn_abs)
qed

lemma roundDouble_pow2:
  "roundDouble (2 ^ k) = 2 ^ k \<and> roundDouble (- (2 ^ k)) = - (2 ^ k)"
proof (cases "k \<le> 52")
  case True
  then have "(2 :: int) ^ k \<le> 2 ^ 52" by (intro power_increasing) simp_all
  then have "\<bar>2 ^ k :: int\<bar> < 2 ^ 53" "\<bar>- (2 ^ k) :: int\<bar> < 2 ^ 53" by simp_all
  then show ?thesis by (simp only: roundDouble_small)
next
  case False
  have n: "nat \<bar>2 ^ k :: int\<bar> = 2 ^ k" "nat \<bar>- (2 ^ k) :: int\<bar> = 2 ^ k"
    by (simp_all add: nat_power_eq)
  from False have k: "k = 52 + (k - 52)" by simp
  have "(2 :: int) ^ k = 2 ^ 52 * 2 ^ (k - 52)" by (subst k) (simp only: power_add)
  then have m: "\<bar>2 ^ k :: int\<bar> = 2 ^ 52 * 2 ^ (k - 52)" "\<bar>- (2 ^ k) :: int\<bar> = 2 ^ 52 * 2 ^ (k - 52)"
    by simp_all
  have b: "bitlen (nat \<bar>2 ^ k :: int\<bar>) = Suc k" "bitlen (nat \<bar>- (2 ^ k) :: int\<bar>) = Suc k"
    by (simp_all only: n bitlen_pow2)
  from roundDouble_scaled[OF b(1) False m(1)] roundDouble_scaled[OF b(2) False m(2)]
  show ?thesis by simp
qed

lemma jsInc_le_inBounds_x: "inBounds cx cy \<Longrightarrow> jsInc x \<le> cx \<longleftrightarrow> x < cx"
  by (rule jsInc_le_small) (simp_all add: inBounds_def consts_defs)

lemma jsInc_le_inBounds_y: "inBounds cx cy \<Longrightarrow> jsInc y \<le> cy \<longleftrightarrow> y < cy"
  by (rule jsInc_le_small) (simp_all add: inBounds_def consts_defs)

section \<open>Room centers\<close>

lemma center_exact:
  assumes "\<bar>2 * r_x r + r_w r\<bar> \<le> 2 ^ 53" and "\<bar>2 * r_y r + r_h r\<bar> \<le> 2 ^ 53"
  shows "center r = \<lparr>p_x = Some (r_x r + r_w r div 2), p_y = Some (r_y r + r_h r div 2)\<rparr>"
  using assms by (simp add: center_def floorHalfSum_exact)

text \<open>
  Claim C9, as stated, fails: the sum \<open>r.x + r.w / 2\<close> is rounded to a double before
  \<open>Math.floor\<close> sees it. For \<open>x = 2^52 + 1\<close> and \<open>w = 1\<close> the sum \<open>x + 0.5\<close> lies
  halfway between the doubles \<open>x\<close> and \<open>x + 1\<close> and is rounded to \<open>x + 1\<close>, whose
  significand is even: the center computed is \<open>x + 1\<close>, not \<open>x + floor(w / 2) = x\<close>.
\<close>

theorem center_rounds_counterexample:
  "center \<lparr>r_x = 4503599627370497, r_y = 0, r_w = 1, r_h = 0\<rparr>
     = \<lparr>p_x = Some 4503599627370498, p_y = Some 0\<rparr> \<and>
   (4503599627370498 :: int) \<noteq> 4503599627370497 + 1 div 2"
  by (simp add: center_def floorHalfSum_def roundDouble_def bitlen.simps Let_def)

text \<open>
  Claim C9, amended. For every room with integer fields such that \<open>2 * x + w\<close> and
  \<open>2 * y + h\<close> have magnitude at most \<open>2^53\<close>, as is the case when the four fields have
  magnitude at most \<open>2^51\<close>, the center the connector computes is
  \<open>(x + floor(w / 2), y + floor(h / 2))\<close>; \<open>div\<close> on \<open>int\<close> rounds towards minus
  infinity as \<open>floor\<close> does, so this covers negative fields too.
\<close>

theorem center_floor_half:
  assumes "\<bar>2 * r_x r + r_w r\<bar> \<le> 2 ^ 53" and "\<bar>2 * r_y r + r_h r\<bar> \<le> 2 ^ 53"
  shows "center r = \<lparr>p_x = Some (r_x r + r_w r div 2), p_y = Some (r_y r + r_h r div 2)\<rparr>"
  using assms by (rule center_exact)

theorem center_floor_half_witness:
  "\<bar>2 * r_x \<lparr>r_x = 3, r_y = - 4, r_w = 5, r_h = - 3\<rparr> + r_w \<lparr>r_x = 3, r_y = - 4, r_w = 5, r_h = - 3\<rparr>\<bar>
     \<le> 2 ^ 53 \<and>
   \<bar>2 * r_y \<lparr>r_x = 3, r_y = - 4, r_w = 5, r_h = - 3\<rparr> + r_h \<lparr>r_x = 3, r_y = - 4, r_w = 5, r_h = - 3\<rparr>\<bar>
     \<le> 2 ^ 53 \<and>
   center \<lparr>r_x = 3, r_y = - 4, r_w = 5, r_h = - 3\<rparr> = \<lparr>p_x = Some 5, p_y = Some (- 6)\<rparr>"
proof -
  let ?r = "\<lparr>r_x = 3, r_y = - 4, r_w = 5, r_h = - 3\<rparr>"
  have a: "\<bar>2 * r_x ?r + r_w ?r\<bar> \<le> 2 ^ 53" and b: "\<bar>2 * r_y ?r + r_h ?r\<bar> \<le> 2 ^ 53"
    by simp_all
  from center_floor_half[OF a b] a b show ?thesis by simp
qed

section \<open>Properties of the grid buffer\<close>

text \<open>A well-formed Grid: \<open>HEIGHT\<close> rows of \<open>WIDTH\<close> tiles, as \<open>createGrid(WIDTH, HEIGHT)\<close> makes it.\<close>

definition wfGrid :: "Grid \<Rightarrow> bool" where
  "wfGrid grid = (int (length grid) = HEIGHT \<and> list_all (\<lambda>row. int (length row) = WIDTH) grid)"

text \<open>The cell \<open>(cx, cy)\<close> exists and holds FLOOR.\<close>

definition isFloor :: "Grid \<Rightarrow> int \<Rightarrow> int \<Rightarrow> bool" where
  "isFloor grid cx cy = (getTile grid cx cy = Some FLOOR)"

lemma setTile_dims: "setTile grid x y v = Inr g \<Longrightarrow> map length g = map length grid"
  by (auto simp: setTile_def map_update list_update_same_conv split: if_splits)

lemma getTile_setTile:
  assumes "setTile grid x y v = Inr g"
  shows "getTile g cx cy = (if cx = x \<and> cy = y then Some v else getTile grid cx cy)"
proof -
  from assms have y: "0 \<le> y" "y < int (length grid)"
    and x: "0 \<le> x" "x < int (length (grid ! nat y))"
    and g: "g = grid[nat y := (grid ! nat y)[nat x := v]]"
    by (auto simp: setTile_def split: if_splits)
  show ?thesis
  proof (cases "cy = y")
    case True
    with y x g show ?thesis
      by (auto simp: getTile_def nth_list_update nat_eq_iff)
  next
    case False
    with y x g show ?thesis
      by (auto simp: getTile_def nth_list_update nat_eq_iff)
  qed
qed

lemma wfGrid_dims: "wfGrid grid \<longleftrightarrow> map length grid = replicate (nat HEIGHT) (nat WIDTH)"
proof
  assume "wfGrid grid"
  then have l: "length grid = nat HEIGHT" and r: "\<forall>row\<in>set grid. length row = nat WIDTH"
    by (auto simp: wfGrid_def list_all_iff)
  show "map length grid = replicate (nat HEIGHT) (nat WIDTH)"
    by (rule nth_equalityI) (use l r in auto)
next
  assume a: "map length grid = replicate (nat HEIGHT) (nat WIDTH)"
  then have l: "length grid = nat HEIGHT"
    by (metis length_map length_replicate)
  have "\<forall>row\<in>set grid. length row = nat WIDTH"
  proof
    fix row assume "row \<in> set grid"
    then have "length row \<in> set (map length grid)" by simp
    with a show "length row = nat WIDTH" by auto
  qed
  with l show "wfGrid grid"
    by (auto simp: wfGrid_def list_all_iff consts_defs)
qed

lemma setTile_ok:
  assumes "wfGrid grid" and "inBounds x y"
  shows "\<exists>g. setTile grid x y v = Inr g"
proof -
  from assms(1) have l: "int (length grid) = HEIGHT" and r: "\<forall>row\<in>set grid. int (length row) = WIDTH"
    by (auto simp: wfGrid_def list_all_iff)
  from assms(2) l have y: "0 \<le> y" "y < int (length grid)" by (auto simp: inBounds_def)
  then have "grid ! nat y \<in> set grid" by simp
  with r have "int (length (grid ! nat y)) = WIDTH" by blast
  with assms(2) y show ?thesis by (simp add: setTile_def inBounds_def)
qed

lemma grid_ext:
  assumes d: "map length g = map length g'"
    and t: "\<And>cx cy. getTile g cx cy = getTile g' cx cy"
  shows "g = g'"
proof (rule nth_equalityI)
  from d show l: "length g = length g'" by (metis length_map)
  fix i assume i: "i < length g"
  from d i l have li: "length (g ! i) = length (g' ! i)"
    by (metis nth_map)
  show "g ! i = g' ! i"
  proof (rule nth_equalityI)
    show "length (g ! i) = length (g' ! i)" by (rule li)
    fix j assume j: "j < length (g ! i)"
    from t[of "int j" "int i"] i j l li show "g ! i ! j = g' ! i ! j"
      by (simp add: getTile_def)
  qed
qed

lemma wfGrid_createGrid: "wfGrid (createGrid WIDTH HEIGHT fill)"
  by (simp add: wfGrid_def createGrid_def list_all_iff consts_defs)

section \<open>Only FLOOR is ever written\<close>

text \<open>
  \<open>carvedFrom grid g\<close>: \<open>g\<close> has the shape of \<open>grid\<close>, and every cell of \<open>g\<close> holds
  what it held in \<open>grid\<close> or holds FLOOR.
\<close>

definition carvedFrom :: "Grid \<Rightarrow> Grid \<Rightarrow> bool" where
  "carvedFrom grid g =
     (map length g = map length grid \<and>
      (\<forall>cx cy. getTile g cx cy = getTile grid cx cy \<or> getTile g cx cy = Some FLOOR))"

lemma carvedFrom_refl: "carvedFrom grid grid"
  by (simp add: carvedFrom_def)

lemma carvedFrom_trans: "carvedFrom g1 g2 \<Longrightarrow> carvedFrom g2 g3 \<Longrightarrow> carvedFrom g1 g3"
  unfolding carvedFrom_def by metis

lemma carvedFrom_floor: "carvedFrom grid g \<Longrightarrow> isFloor grid cx cy \<Longrightarrow> isFloor g cx cy"
  unfolding carvedFrom_def isFloor_def by metis

lemma carvedFrom_wf: "wfGrid grid \<Longrightarrow> carvedFrom grid g \<Longrightarrow> wfGrid g"
  by (simp add: wfGrid_dims carvedFrom_def)

lemma carvedFrom_setTile: "setTile grid x y FLOOR = Inr g \<Longrightarrow> carvedFrom grid g"
  using getTile_setTile[of grid x y FLOOR g] setTile_dims[of grid x y FLOOR g]
  by (simp add: carvedFrom_def)

lemma wfGrid_setTile: "wfGrid grid \<Longrightarrow> setTile grid x y v = Inr g \<Longrightarrow> wfGrid g"
  by (simp add: wfGrid_dims setTile_dims)

lemma setTile_again:
  assumes "isFloor grid x y"
  shows "setTile grid x y FLOOR = Inr grid"
proof -
  from assms have y: "0 \<le> y" "y < int (length grid)"
    and x: "0 \<le> x" "x < int (length (grid ! nat y))"
    and v: "grid ! nat y ! nat x = FLOOR"
    by (auto simp: isFloor_def getTile_def split: if_splits)
  from v have "(grid ! nat y)[nat x := FLOOR] = grid ! nat y"
    using list_update_id[of "grid ! nat y" "nat x"] by simp
  then have "grid[nat y := (grid ! nat y)[nat x := FLOOR]] = grid"
    using list_update_id[of grid "nat y"] by simp
  with y x show ?thesis by (simp add: setTile_def)
qed

section \<open>What the corridor runs do to the grid\<close>

text \<open>
  \<open>ranH grid x hi y r\<close> says what a run of the loop of \<open>carveLineH\<close> from the counter
  \<open>x\<close> has done when it returned \<open>r\<close>, for every grid and all integers: on a
  well-formed grid it returned normally; a grid it returned has the shape of \<open>grid\<close>,
  holds FLOOR in the cells of row \<open>y\<close> from \<open>x\<close> to \<open>hi\<close> that pass \<open>inBounds\<close>, and is
  as \<open>grid\<close> in every other cell; and the loop, run again between the same bounds in
  any row of any grid that holds FLOOR in the cells it would write, returns that grid
  unchanged.
\<close>

definition ranH :: "Grid \<Rightarrow> int \<Rightarrow> int \<Rightarrow> int \<Rightarrow> error + Grid \<Rightarrow> bool" where
  "ranH grid x hi y r =
     ((wfGrid grid \<longrightarrow> (\<exists>g. r = Inr g)) \<and>
      (\<forall>g. r = Inr g \<longrightarrow>
         map length g = map length grid \<and>
         (\<forall>cx cy. getTile g cx cy =
            (if cy = y \<and> x \<le> cx \<and> cx \<le> hi \<and> inBounds cx cy then Some FLOOR
             else getTile grid cx cy)) \<and>
         (\<forall>y' grid'.
            (\<forall>cx. x \<le> cx \<and> cx \<le> hi \<and> inBounds cx y' \<longrightarrow> isFloor grid' cx y') \<longrightarrow>
            carveLineH_loop grid' x hi y' = Some (Inr grid'))))"

definition ranV :: "Grid \<Rightarrow> int \<Rightarrow> int \<Rightarrow> int \<Rightarrow> error + Grid \<Rightarrow> bool" where
  "ranV grid y hi x r =
     ((wfGrid grid \<longrightarrow> (\<exists>g. r = Inr g)) \<and>
      (\<forall>g. r = Inr g \<longrightarrow>
         map length g = map length grid \<and>
         (\<forall>cx cy. getTile g cx cy =
            (if cx = x \<and> y \<le> cy \<and> cy \<le> hi \<and> inBounds cx cy then Some FLOOR
             else getTile grid cx cy)) \<and>
         (\<forall>x' grid'.
            (\<forall>cy. y \<le> cy \<and> cy \<le> hi \<and> inBounds x' cy \<longrightarrow> isFloor grid' x' cy) \<longrightarrow>
            carveLineV_loop grid' y hi x' = Some (Inr grid'))))"

lemmas carveLineH_loop_induct =
  carveLineH_loop.raw_induct[where xa = "(((grid, x), hi), y)" for grid x hi y,
    unfolded prod.case, rotated 1, consumes 1]

lemmas carveLineV_loop_induct =
  carveLineV_loop.raw_induct[where xa = "(((grid, y), hi), x)" for grid y hi x,
    unfolded prod.case, rotated 1, consumes 1]

lemma ranH_exit: "\<not> x \<le> hi \<Longrightarrow> ranH grid x hi y (Inr grid)"
  by (auto simp: ranH_def carveLineH_loop.simps[of _ x hi])

lemma ranH_error:
  "inBounds x y \<Longrightarrow> setTile grid x y FLOOR = Inl e \<Longrightarrow> ranH grid x hi y (Inl e)"
  using setTile_ok[of grid x y FLOOR] by (auto simp: ranH_def)

lemma ranH_step:
  assumes le: "x \<le> hi"
    and s: "(if inBounds x y then setTile grid x y FLOOR else Inr grid) = Inr g1"
    and r: "ranH g1 (jsInc x) hi y r"
  shows "ranH grid x hi y r"
proof -
  have d1: "map length g1 = map length grid"
    using s setTile_dims[of grid x y FLOOR g1] by (auto split: if_splits)
  have t1: "\<And>cx cy. getTile g1 cx cy =
      (if cx = x \<and> cy = y \<and> inBounds cx cy then Some FLOOR else getTile grid cx cy)"
    using s getTile_setTile[of grid x y FLOOR g1] by (auto split: if_splits)
  have w1: "wfGrid grid \<Longrightarrow> wfGrid g1"
    using d1 by (simp add: wfGrid_dims)
  have a: "wfGrid grid \<longrightarrow> (\<exists>g. r = Inr g)"
    using r w1 by (auto simp: ranH_def)
  have b: "\<forall>g. r = Inr g \<longrightarrow> map length g = map length grid"
    using r d1 by (auto simp: ranH_def)
  have c: "\<forall>g. r = Inr g \<longrightarrow> (\<forall>cx cy. getTile g cx cy =
            (if cy = y \<and> x \<le> cx \<and> cx \<le> hi \<and> inBounds cx cy then Some FLOOR
             else getTile grid cx cy))"
  proof (intro allI impI)
    fix g cx cy assume "r = Inr g"
    with r have "getTile g cx cy =
            (if cy = y \<and> jsInc x \<le> cx \<and> cx \<le> hi \<and> inBounds cx cy then Some FLOOR
             else getTile g1 cx cy)"
      by (simp add: ranH_def)
    with t1[of cx cy] jsInc_le_inBounds_x[of cx cy x] le
    show "getTile g cx cy =
            (if cy = y \<and> x \<le> cx \<and> cx \<le> hi \<and> inBounds cx cy then Some FLOOR
             else getTile grid cx cy)"
      by auto
  qed
  have d: "\<forall>g. r = Inr g \<longrightarrow> (\<forall>y' grid'.
            (\<forall>cx. x \<le> cx \<and> cx \<le> hi \<and> inBounds cx y' \<longrightarrow> isFloor grid' cx y') \<longrightarrow>
            carveLineH_loop grid' x hi y' = Some (Inr grid'))"
  proof (intro allI impI)
    fix g y' grid'
    assume rg: "r = Inr g"
      and fl: "\<forall>cx. x \<le> cx \<and> cx \<le> hi \<and> inBounds cx y' \<longrightarrow> isFloor grid' cx y'"
    have "\<forall>cx. jsInc x \<le> cx \<and> cx \<le> hi \<and> inBounds cx y' \<longrightarrow> isFloor grid' cx y'"
      using fl jsInc_le_inBounds_x[of _ y' x] by auto
    with r rg have next_run: "carveLineH_loop grid' (jsInc x) hi y' = Some (Inr grid')"
      by (simp add: ranH_def)
    show "carveLineH_loop grid' x hi y' = Some (Inr grid')"
    proof (cases "inBounds x y'")
      case True
      with fl le have "isFloor grid' x y'" by simp
      from setTile_again[OF this] True le next_run show ?thesis
        by (simp add: carveLineH_loop.simps[of grid' x hi y'])
    next
      case False
      with le next_run show ?thesis by (simp add: carveLineH_loop.simps[of grid' x hi y'])
    qed
  qed
  from a b c d show ?thesis by (simp add: ranH_def)
qed

lemma carveLineH_loop_ran:
  assumes "carveLineH_loop grid x hi y = Some r"
  shows "ranH grid x hi y r"
  using assms
proof (induction rule: carveLineH_loop_induct)
  case (1 f grid x hi y r)
  show ?case
  proof (cases "x \<le> hi")
    case False
    with "1.hyps" show ?thesis by (auto simp: ranH_exit)
  next
    case True
    show ?thesis
    proof (cases "if inBounds x y then setTile grid x y FLOOR else Inr grid")
      case (Inl e)
      with "1.hyps" True have "r = Inl e" by simp
      with Inl show ?thesis by (auto simp: ranH_error split: if_splits)
    next
      case (Inr g1)
      with "1.hyps" True have "f g1 (jsInc x) hi y = Some r" by simp
      from ranH_step[OF True Inr "1.IH"[OF this]] show ?thesis .
    qed
  qed
qed

lemma ranV_exit: "\<not> y \<le> hi \<Longrightarrow> ranV grid y hi x (Inr grid)"
  by (auto simp: ranV_def carveLineV_loop.simps[of _ y hi])

lemma ranV_error:
  "inBounds x y \<Longrightarrow> setTile grid x y FLOOR = Inl e \<Longrightarrow> ranV grid y hi x (Inl e)"
  using setTile_ok[of grid x y FLOOR] by (auto simp: ranV_def)

lemma ranV_step:
  assumes le: "y \<le> hi"
    and s: "(if inBounds x y then setTile grid x y FLOOR else Inr grid) = Inr g1"
    and r: "ranV g1 (jsInc y) hi x r"
  shows "ranV grid y hi x r"
proof -
  have d1: "map length g1 = map length grid"
    using s setTile_dims[of grid x y FLOOR g1] by (auto split: if_splits)
  have t1: "\<And>cx cy. getTile g1 cx cy =
      (if cx = x \<and> cy = y \<and> inBounds cx cy then Some FLOOR else getTile grid cx cy)"
    using s getTile_setTile[of grid x y FLOOR g1] by (auto split: if_splits)
  have w1: "wfGrid grid \<Longrightarrow> wfGrid g1"
    using d1 by (simp add: wfGrid_dims)
  have a: "wfGrid grid \<longrightarrow> (\<exists>g. r = Inr g)"
    using r w1 by (auto simp: ranV_def)
  have b: "\<forall>g. r = Inr g \<longrightarrow> map length g = map length grid"
    using r d1 by (auto simp: ranV_def)
  have c: "\<forall>g. r = Inr g \<longrightarrow> (\<forall>cx cy. getTile g cx cy =
            (if cx = x \<and> y \<le> cy \<and> cy \<le> hi \<and> inBounds cx cy then Some FLOOR
             else getTile grid cx cy))"
  proof (intro allI impI)
    fix g cx cy assume "r = Inr g"
    with r have "getTile g cx cy =
            (if cx = x \<and> jsInc y \<le> cy \<and> cy \<le> hi \<and> inBounds cx cy then Some FLOOR
             else getTile g1 cx cy)"
      by (simp add: ranV_def)
    with t1[of cx cy] jsInc_le_inBounds_y[of cx cy y] le
    show "getTile g cx cy =
            (if cx = x \<and> y \<le> cy \<and> cy \<le> hi \<and> inBounds cx cy then Some FLOOR
             else getTile grid cx cy)"
      by auto
  qed
  have d: "\<forall>g. r = Inr g \<longrightarrow> (\<forall>x' grid'.
            (\<forall>cy. y \<le> cy \<and> cy \<le> hi \<and> inBounds x' cy \<longrightarrow> isFloor grid' x' cy) \<longrightarrow>
            carveLineV_loop grid' y hi x' = Some (Inr grid'))"
  proof (intro allI impI)
    fix g x' grid'
    assume rg: "r = Inr g"
      and fl: "\<forall>cy. y \<le> cy \<and> cy \<le> hi \<and> inBounds x' cy \<longrightarrow> isFloor grid' x' cy"
    have "\<forall>cy. jsInc y \<le> cy \<and> cy \<le> hi \<and> inBounds x' cy \<longrightarrow> isFloor grid' x' cy"
      using fl jsInc_le_inBounds_y[of x' _ y] by auto
    with r rg have next_run: "carveLineV_loop grid' (jsInc y) hi x' = Some (Inr grid')"
      by (simp add: ranV_def)
    show "carveLineV_loop grid' y hi x' = Some (Inr grid')"
    proof (cases "inBounds x' y")
      case True
      with fl le have "isFloor grid' x' y" by simp
      from setTile_again[OF this] True le next_run show ?thesis
        by (simp add: carveLineV_loop.simps[of grid' y hi x'])
    next
      case False
      with le next_run show ?thesis by (simp add: carveLineV_loop.simps[of grid' y hi x'])
    qed
  qed
  from a b c d show ?thesis by (simp add: ranV_def)
qed

lemma carveLineV_loop_ran:
  assumes "carveLineV_loop grid y hi x = Some r"
  shows "ranV grid y hi x r"
  using assms
proof (induction rule: carveLineV_loop_induct)
  case (1 f grid y hi x r)
  show ?case
  proof (cases "y \<le> hi")
    case False
    with "1.hyps" show ?thesis by (auto simp: ranV_exit)
  next
    case True
    show ?thesis
    proof (cases "if inBounds x y then setTile grid x y FLOOR else Inr grid")
      case (Inl e)
      with "1.hyps" True have "r = Inl e" by simp
      with Inl show ?thesis by (auto simp: ranV_error split: if_splits)
    next
      case (Inr g1)
      with "1.hyps" True have "f g1 (jsInc y) hi x = Some r" by simp
      from ranV_step[OF True Inr "1.IH"[OF this]] show ?thesis .
    qed
  qed
qed

text \<open>
  Between bounds of magnitude below \<open>2^53\<close> the counter advances by one and the loop
  returns.
\<close>

lemma carveLineH_loop_ok:
  assumes "wfGrid grid" and "- (2 ^ 53) \<le> x" and "hi < 2 ^ 53"
  shows "\<exists>g. carveLineH_loop grid x hi y = Some (Inr g)"
  using assms(1,2)
proof (induction "nat (hi + 1 - x)" arbitrary: grid x)
  case 0
  then have "\<not> x \<le> hi" by simp
  then show ?case by (simp add: carveLineH_loop.simps[of grid x hi y])
next
  case (Suc n)
  then have le: "x \<le> hi" and n: "n = nat (hi + 1 - (x + 1))" by simp_all
  from le assms(3) Suc.prems(2) have inc: "jsInc x = x + 1" by (simp add: jsInc_exact)
  from Suc.prems(2) have lo: "- (2 ^ 53) \<le> x + 1" by simp
  show ?case
  proof (cases "inBounds x y")
    case True
    from setTile_ok[OF Suc.prems(1) True] obtain g1 where s: "setTile grid x y FLOOR = Inr g1" ..
    from Suc.hyps(1)[OF n wfGrid_setTile[OF Suc.prems(1) s] lo] s le True inc
    show ?thesis by (simp add: carveLineH_loop.simps[of grid x hi y])
  next
    case False
    from Suc.hyps(1)[OF n Suc.prems(1) lo] le False inc show ?thesis
      by (simp add: carveLineH_loop.simps[of grid x hi y])
  qed
qed

lemma carveLineV_loop_ok:
  assumes "wfGrid grid" and "- (2 ^ 53) \<le> y" and "hi < 2 ^ 53"
  shows "\<exists>g. carveLineV_loop grid y hi x = Some (Inr g)"
  using assms(1,2)
proof (induction "nat (hi + 1 - y)" arbitrary: grid y)
  case 0
  then have "\<not> y \<le> hi" by simp
  then show ?case by (simp add: carveLineV_loop.simps[of grid y hi x])
next
  case (Suc n)
  then have le: "y \<le> hi" and n: "n = nat (hi + 1 - (y + 1))" by simp_all
  from le assms(3) Suc.prems(2) have inc: "jsInc y = y + 1" by (simp add: jsInc_exact)
  from Suc.prems(2) have lo: "- (2 ^ 53) \<le> y + 1" by simp
  show ?case
  proof (cases "inBounds x y")
    case True
    from setTile_ok[OF Suc.prems(1) True] obtain g1 where s: "setTile grid x y FLOOR = Inr g1" ..
    from Suc.hyps(1)[OF n wfGrid_setTile[OF Suc.prems(1) s] lo] s le True inc
    show ?thesis by (simp add: carveLineV_loop.simps[of grid y hi x])
  next
    case False
    from Suc.hyps(1)[OF n Suc.prems(1) lo] le False inc show ?thesis
      by (simp add: carveLineV_loop.simps[of grid y hi x])
  qed
qed

text \<open>
  From the counter \<open>2^53\<close> the loop does not return when the upper bound is not below:
  \<open>x++\<close> leaves the counter at \<open>2^53\<close>, which is outside the grid.
\<close>

lemma carveLineH_loop_stuck:
  assumes "carveLineH_loop grid x hi y = Some r"
  shows "\<not> (x = 9007199254740992 \<and> 9007199254740992 \<le> hi)"
  using assms
proof (induction rule: carveLineH_loop_induct)
  case (1 f grid x hi y r)
  show ?case
  proof
    assume h: "x = 9007199254740992 \<and> 9007199254740992 \<le> hi"
    then have nb: "\<not> inBounds x y" by (simp add: inBounds_def consts_defs)
    from "1.hyps" h nb have "f grid (jsInc x) hi y = Some r" by simp
    from "1.IH"[OF this] h jsInc_stuck show False by simp
  qed
qed

lemma carveLineV_loop_stuck:
  assumes "carveLineV_loop grid y hi x = Some r"
  shows "\<not> (y = 9007199254740992 \<and> 9007199254740992 \<le> hi)"
  using assms
proof (induction rule: carveLineV_loop_induct)
  case (1 f grid y hi x r)
  show ?case
  proof
    assume h: "y = 9007199254740992 \<and> 9007199254740992 \<le> hi"
    then have nb: "\<not> inBounds x y" by (simp add: inBounds_def consts_defs)
    from "1.hyps" h nb have "f grid (jsInc y) hi x = Some r" by simp
    from "1.IH"[OF this] h jsInc_stuck show False by simp
  qed
qed

text \<open>The cells of a horizontal and of a vertical run between two coordinates.\<close>

definition onRunH :: "int \<Rightarrow> int \<Rightarrow> int \<Rightarrow> int \<Rightarrow> int \<Rightarrow> bool" where
  "onRunH x1 x2 y cx cy = (cy = y \<and> min x1 x2 \<le> cx \<and> cx \<le> max x1 x2)"

definition onRunV :: "int \<Rightarrow> int \<Rightarrow> int \<Rightarrow> int \<Rightarrow> int \<Rightarrow> bool" where
  "onRunV y1 y2 x cx cy = (cx = x \<and> min y1 y2 \<le> cy \<and> cy \<le> max y1 y2)"

lemma carveLineH_loop_eq:
  "carveLineH grid x1 x2 y = carveLineH_loop grid (min x1 x2) (max x1 x2) y"
  by (simp add: carveLineH_def min_def max_def)

lemma carveLineV_loop_eq:
  "carveLineV grid y1 y2 x = carveLineV_loop grid (min y1 y2) (max y1 y2) x"
  by (simp add: carveLineV_def min_def max_def)

lemma carveLineH_cells:
  assumes "carveLineH grid x1 x2 y = Some (Inr g)"
  shows "map length g = map length grid"
    and "getTile g cx cy =
      (if onRunH x1 x2 y cx cy \<and> inBounds cx cy then Some FLOOR else getTile grid cx cy)"
  using carveLineH_loop_ran[OF assms[unfolded carveLineH_loop_eq]]
  by (simp_all add: ranH_def onRunH_def)

lemma carveLineV_cells:
  assumes "carveLineV grid y1 y2 x = Some (Inr g)"
  shows "map length g = map length grid"
    and "getTile g cx cy =
      (if onRunV y1 y2 x cx cy \<and> inBounds cx cy then Some FLOOR else getTile grid cx cy)"
  using carveLineV_loop_ran[OF assms[unfolded carveLineV_loop_eq]]
  by (simp_all add: ranV_def onRunV_def)

lemma carveLineH_result:
  assumes "wfGrid grid" and "carveLineH grid x1 x2 y = Some r"
  shows "\<exists>g. r = Inr g \<and> wfGrid g"
proof -
  from carveLineH_loop_ran[OF assms(2)[unfolded carveLineH_loop_eq]] assms(1)
  obtain g where g: "r = Inr g" and "map length g = map length grid"
    by (auto simp: ranH_def)
  with assms(1) show ?thesis by (simp add: wfGrid_dims)
qed

lemma carveLineV_result:
  assumes "wfGrid grid" and "carveLineV grid y1 y2 x = Some r"
  shows "\<exists>g. r = Inr g \<and> wfGrid g"
proof -
  from carveLineV_loop_ran[OF assms(2)[unfolded carveLineV_loop_eq]] assms(1)
  obtain g where g: "r = Inr g" and "map length g = map length grid"
    by (auto simp: ranV_def)
  with assms(1) show ?thesis by (simp add: wfGrid_dims)
qed

lemma carveLineH_rerun:
  assumes "carveLineH grid x1 x2 y = Some (Inr g)"
    and "\<forall>cx. onRunH x1 x2 y' cx y' \<and> inBounds cx y' \<longrightarrow> isFloor grid' cx y'"
  shows "carveLineH grid' x1 x2 y' = Some (Inr grid')"
proof -
  from assms(2) have "\<forall>cx. min x1 x2 \<le> cx \<and> cx \<le> max x1 x2 \<and> inBounds cx y' \<longrightarrow> isFloor grid' cx y'"
    by (simp add: onRunH_def)
  with carveLineH_loop_ran[OF assms(1)[unfolded carveLineH_loop_eq]]
  show ?thesis unfolding carveLineH_loop_eq by (simp add: ranH_def)
qed

lemma carveLineV_rerun:
  assumes "carveLineV grid y1 y2 x = Some (Inr g)"
    and "\<forall>cy. onRunV y1 y2 x' x' cy \<and> inBounds x' cy \<longrightarrow> isFloor grid' x' cy"
  shows "carveLineV grid' y1 y2 x' = Some (Inr grid')"
proof -
  from assms(2) have "\<forall>cy. min y1 y2 \<le> cy \<and> cy \<le> max y1 y2 \<and> inBounds x' cy \<longrightarrow> isFloor grid' x' cy"
    by (simp add: onRunV_def)
  with carveLineV_loop_ran[OF assms(1)[unfolded carveLineV_loop_eq]]
  show ?thesis unfolding carveLineV_loop_eq by (simp add: ranV_def)
qed

lemma carveLineH_ok:
  assumes "wfGrid grid" and "\<bar>x1\<bar> < 2 ^ 53" and "\<bar>x2\<bar> < 2 ^ 53"
  shows "\<exists>g. carveLineH grid x1 x2 y = Some (Inr g)"
  unfolding carveLineH_loop_eq
  using assms(2,3) by (intro carveLineH_loop_ok[OF assms(1)]) (auto simp: min_def max_def)

lemma carveLineV_ok:
  assumes "wfGrid grid" and "\<bar>y1\<bar> < 2 ^ 53" and "\<bar>y2\<bar> < 2 ^ 53"
  shows "\<exists>g. carveLineV grid y1 y2 x = Some (Inr g)"
  unfolding carveLineV_loop_eq
  using assms(2,3) by (intro carveLineV_loop_ok[OF assms(1)]) (auto simp: min_def max_def)

lemma wfGrid_carveLineH:
  "wfGrid grid \<Longrightarrow> carveLineH grid x1 x2 y = Some (Inr g) \<Longrightarrow> wfGrid g"
  by (simp add: wfGrid_dims carveLineH_cells(1))

lemma wfGrid_carveLineV:
  "wfGrid grid \<Longrightarrow> carveLineV grid y1 y2 x = Some (Inr g) \<Longrightarrow> wfGrid g"
  by (simp add: wfGrid_dims carveLineV_cells(1))

lemma carvedFrom_carveLineH: "carveLineH grid x1 x2 y = Some (Inr g) \<Longrightarrow> carvedFrom grid g"
  by (simp add: carvedFrom_def carveLineH_cells)

lemma carvedFrom_carveLineV: "carveLineV grid y1 y2 x = Some (Inr g) \<Longrightarrow> carvedFrom grid g"
  by (simp add: carvedFrom_def carveLineV_cells)

text \<open>
  Claim C7, as stated, fails: a run does not return for every pair of endpoints. The
  counter of the loop is a double, and \<open>2^53 + 1\<close> is rounded to \<open>2^53\<close>: with both
  endpoints \<open>2^53\<close> the test \<open>x <= hi\<close> holds at every iteration, and the call, which
  writes nothing, never returns.
\<close>

theorem carveLine_unbounded_counterexample:
  "carveLineH (createGrid WIDTH HEIGHT WALL) 9007199254740992 9007199254740992 0 = None \<and>
   carveLineV (createGrid WIDTH HEIGHT WALL) 9007199254740992 9007199254740992 0 = None"
proof
  show "carveLineH (createGrid WIDTH HEIGHT WALL) 9007199254740992 9007199254740992 0 = None"
    using carveLineH_loop_stuck[of "createGrid WIDTH HEIGHT WALL" 9007199254740992
        9007199254740992 0]
    by (cases "carveLineH_loop (createGrid WIDTH HEIGHT WALL) 9007199254740992
        9007199254740992 0") (simp_all add: carveLineH_def)
next
  show "carveLineV (createGrid WIDTH HEIGHT WALL) 9007199254740992 9007199254740992 0 = None"
    using carveLineV_loop_stuck[of "createGrid WIDTH HEIGHT WALL" 9007199254740992
        9007199254740992 0]
    by (cases "carveLineV_loop (createGrid WIDTH HEIGHT WALL) 9007199254740992
        9007199254740992 0") (simp_all add: carveLineV_def)
qed

text \<open>
  Claim C7, amended. On a well-formed grid and for arbitrary integer endpoints, also
  outside the grid, a call of \<open>carveLineH\<close> or \<open>carveLineV\<close> that returns has returned
  normally (no store misses the buffer) and the grid keeps its shape; afterwards every
  cell of the run that passes \<open>inBounds\<close>, that is with \<open>0 \<le> x < WIDTH\<close> and
  \<open>0 \<le> y < HEIGHT\<close>, holds FLOOR, and every other cell is as it was: the cells of the
  run outside the grid are skipped. The call returns when both endpoints of the run
  have a magnitude below \<open>2^53\<close>.
\<close>

theorem carveLine_clipped:
  assumes "wfGrid grid"
  shows "(\<forall>r. carveLineH grid x1 x2 y = Some r \<longrightarrow>
            (\<exists>g. r = Inr g \<and> wfGrid g \<and>
               (\<forall>cx cy. getTile g cx cy =
                  (if onRunH x1 x2 y cx cy \<and> inBounds cx cy then Some FLOOR
                   else getTile grid cx cy)))) \<and>
         (\<forall>r. carveLineV grid y1 y2 x = Some r \<longrightarrow>
            (\<exists>g. r = Inr g \<and> wfGrid g \<and>
               (\<forall>cx cy. getTile g cx cy =
                  (if onRunV y1 y2 x cx cy \<and> inBounds cx cy then Some FLOOR
                   else getTile grid cx cy)))) \<and>
         (\<bar>x1\<bar> < 2 ^ 53 \<and> \<bar>x2\<bar> < 2 ^ 53 \<longrightarrow> (\<exists>g. carveLineH grid x1 x2 y = Some (Inr g))) \<and>
         (\<bar>y1\<bar> < 2 ^ 53 \<and> \<bar>y2\<bar> < 2 ^ 53 \<longrightarrow> (\<exists>g. carveLineV grid y1 y2 x = Some (Inr g)))"
proof (intro conjI allI impI)
  fix r assume r: "carveLineH grid x1 x2 y = Some r"
  from carveLineH_result[OF assms r] obtain g where g: "r = Inr g" "wfGrid g" by blast
  from r g(1) have "carveLineH grid x1 x2 y = Some (Inr g)" by simp
  from carveLineH_cells(2)[OF this] g
  show "\<exists>g. r = Inr g \<and> wfGrid g \<and>
               (\<forall>cx cy. getTile g cx cy =
                  (if onRunH x1 x2 y cx cy \<and> inBounds cx cy then Some FLOOR
                   else getTile grid cx cy))"
    by simp
next
  fix r assume r: "carveLineV grid y1 y2 x = Some r"
  from carveLineV_result[OF assms r] obtain g where g: "r = Inr g" "wfGrid g" by blast
  from r g(1) have "carveLineV grid y1 y2 x = Some (Inr g)" by simp
  from carveLineV_cells(2)[OF this] g
  show "\<exists>g. r = Inr g \<and> wfGrid g \<and>
               (\<forall>cx cy. getTile g cx cy =
                  (if onRunV y1 y2 x cx cy \<and> inBounds cx cy then Some FLOOR
                   else getTile grid cx cy))"
    by simp
next
  assume "\<bar>x1\<bar> < 2 ^ 53 \<and> \<bar>x2\<bar> < 2 ^ 53"
  then show "\<exists>g. carveLineH grid x1 x2 y = Some (Inr g)"
    using carveLineH_ok[OF assms] by simp
next
  assume "\<bar>y1\<bar> < 2 ^ 53 \<and> \<bar>y2\<bar> < 2 ^ 53"
  then show "\<exists>g. carveLineV grid y1 y2 x = Some (Inr g)"
    using carveLineV_ok[OF assms] by simp
qed

theorem carveLine_clipped_witness:
  "wfGrid (createGrid WIDTH HEIGHT WALL) \<and>
   (\<exists>g. carveLineH (createGrid WIDTH HEIGHT WALL) (- 5) 70 3 = Some (Inr g) \<and> wfGrid g \<and>
      (\<forall>cx cy. getTile g cx cy =
         (if onRunH (- 5) 70 3 cx cy \<and> inBounds cx cy then Some FLOOR
          else getTile (createGrid WIDTH HEIGHT WALL) cx cy))) \<and>
   (\<exists>g. carveLineV (createGrid WIDTH HEIGHT WALL) 60 (- 2) 64 = Some (Inr g) \<and> wfGrid g \<and>
      (\<forall>cx cy. getTile g cx cy =
         (if onRunV 60 (- 2) 64 cx cy \<and> inBounds cx cy then Some FLOOR
          else getTile (createGrid WIDTH HEIGHT WALL) cx cy)))"
proof -
  let ?G = "createGrid WIDTH HEIGHT WALL"
  note t = carveLine_clipped[OF wfGrid_createGrid, of WALL "- 5" 70 3 60 "- 2" 64]
  have bh: "\<bar>- 5 :: int\<bar> < 2 ^ 53 \<and> \<bar>70 :: int\<bar> < 2 ^ 53" by simp
  have bv: "\<bar>60 :: int\<bar> < 2 ^ 53 \<and> \<bar>- 2 :: int\<bar> < 2 ^ 53" by simp
  from t[THEN conjunct2, THEN conjunct2, THEN conjunct1, THEN mp, OF bh]
  obtain gh where gh: "carveLineH ?G (- 5) 70 3 = Some (Inr gh)" ..
  from t[THEN conjunct2, THEN conjunct2, THEN conjunct2, THEN mp, OF bv]
  obtain gv where gv: "carveLineV ?G 60 (- 2) 64 = Some (Inr gv)" ..
  from t[THEN conjunct1, THEN spec, of "Inr gh", THEN mp, OF gh] gh
  have h: "\<exists>g. carveLineH ?G (- 5) 70 3 = Some (Inr g) \<and> wfGrid g \<and>
      (\<forall>cx cy. getTile g cx cy =
         (if onRunH (- 5) 70 3 cx cy \<and> inBounds cx cy then Some FLOOR
          else getTile ?G cx cy))"
    by simp
  from t[THEN conjunct2, THEN conjunct1, THEN spec, of "Inr gv", THEN mp, OF gv] gv
  have v: "\<exists>g. carveLineV ?G 60 (- 2) 64 = Some (Inr g) \<and> wfGrid g \<and>
      (\<forall>cx cy. getTile g cx cy =
         (if onRunV 60 (- 2) 64 cx cy \<and> inBounds cx cy then Some FLOOR
          else getTile ?G cx cy))"
    by simp
  from h v wfGrid_createGrid[of WALL] show ?thesis by (intro conjI)
qed

section \<open>Corridors\<close>

text \<open>
  The cells of the L-shaped corridor from \<open>(x1, y1)\<close> to \<open>(x2, y2)\<close>, for either
  order of the two runs.
\<close>

definition onCorridor :: "bool \<Rightarrow> int \<Rightarrow> int \<Rightarrow> int \<Rightarrow> int \<Rightarrow> int \<Rightarrow> int \<Rightarrow> bool" where
  "onCorridor firstHorizontal x1 y1 x2 y2 cx cy =
     (if firstHorizontal then onRunH x1 x2 y1 cx cy \<or> onRunV y1 y2 x2 cx cy
      else onRunV y1 y2 x1 cx cy \<or> onRunH x1 x2 y2 cx cy)"

text \<open>
  Two successive calls with the same arguments, the second on the grid as the first
  left it: of \<open>carveCorridor\<close> at the draws \<open>u1\<close> and \<open>u2\<close>, and of each run. The second
  call takes place when the first has returned normally.
\<close>

definition carveCorridorTwice ::
  "Grid \<Rightarrow> int \<Rightarrow> int \<Rightarrow> int \<Rightarrow> int \<Rightarrow> real \<Rightarrow> real \<Rightarrow> (error + Grid) option" where
  "carveCorridorTwice grid x1 y1 x2 y2 u1 u2 =
     (case carveCorridor grid x1 y1 x2 y2 u1 of
        None \<Rightarrow> None
      | Some (Inl e) \<Rightarrow> Some (Inl e)
      | Some (Inr g) \<Rightarrow> carveCorridor g x1 y1 x2 y2 u2)"

definition carveLineHTwice :: "Grid \<Rightarrow> int \<Rightarrow> int \<Rightarrow> int \<Rightarrow> (error + Grid) option" where
  "carveLineHTwice grid x1 x2 y =
     (case carveLineH grid x1 x2 y of
        None \<Rightarrow> None
      | Some (Inl e) \<Rightarrow> Some (Inl e)
      | Some (Inr g) \<Rightarrow> carveLineH g x1 x2 y)"

definition carveLineVTwice :: "Grid \<Rightarrow> int \<Rightarrow> int \<Rightarrow> int \<Rightarrow> (error + Grid) option" where
  "carveLineVTwice grid y1 y2 x =
     (case carveLineV grid y1 y2 x of
        None \<Rightarrow> None
      | Some (Inl e) \<Rightarrow> Some (Inl e)
      | Some (Inr g) \<Rightarrow> carveLineV g y1 y2 x)"

text \<open>The two runs of a call that returned a grid.\<close>

lemma carveCorridor_runs:
  assumes "carveCorridor grid x1 y1 x2 y2 u = Some (Inr g)"
  shows "\<exists>g1. (if u < 0.5
               then carveLineH grid x1 x2 y1 = Some (Inr g1) \<and> carveLineV g1 y1 y2 x2 = Some (Inr g)
               else carveLineV grid y1 y2 x1 = Some (Inr g1) \<and> carveLineH g1 x1 x2 y2 = Some (Inr g))"
proof (cases "u < 0.5")
  case True
  with assms show ?thesis
    by (cases "carveLineH grid x1 x2 y1")
       (auto simp: carveCorridor_def split: sum.splits)
next
  case False
  with assms show ?thesis
    by (cases "carveLineV grid y1 y2 x1")
       (auto simp: carveCorridor_def split: sum.splits)
qed

lemma carveCorridor_cells:
  assumes "carveCorridor grid x1 y1 x2 y2 u = Some (Inr g)"
  shows "map length g = map length grid"
    and "getTile g cx cy =
      (if onCorridor (u < 0.5) x1 y1 x2 y2 cx cy \<and> inBounds cx cy then Some FLOOR
       else getTile grid cx cy)"
proof -
  have "map length g = map length grid \<and> getTile g cx cy =
      (if onCorridor (u < 0.5) x1 y1 x2 y2 cx cy \<and> inBounds cx cy then Some FLOOR
       else getTile grid cx cy)"
  proof (cases "u < 0.5")
    case True
    with carveCorridor_runs[OF assms] obtain g1
      where h: "carveLineH grid x1 x2 y1 = Some (Inr g1)"
      and v: "carveLineV g1 y1 y2 x2 = Some (Inr g)" by auto
    from carveLineH_cells[OF h] carveLineV_cells[OF v] True
    show ?thesis by (simp add: onCorridor_def)
  next
    case False
    with carveCorridor_runs[OF assms] obtain g1
      where v: "carveLineV grid y1 y2 x1 = Some (Inr g1)"
      and h: "carveLineH g1 x1 x2 y2 = Some (Inr g)" by auto
    from carveLineH_cells[OF h] carveLineV_cells[OF v] False
    show ?thesis by (simp add: onCorridor_def)
  qed
  then show "map length g = map length grid"
    and "getTile g cx cy =
      (if onCorridor (u < 0.5) x1 y1 x2 y2 cx cy \<and> inBounds cx cy then Some FLOOR
       else getTile grid cx cy)"
    by simp_all
qed

lemma carveCorridor_ok:
  assumes "wfGrid grid"
    and "\<bar>x1\<bar> < 2 ^ 53" and "\<bar>y1\<bar> < 2 ^ 53" and "\<bar>x2\<bar> < 2 ^ 53" and "\<bar>y2\<bar> < 2 ^ 53"
  shows "\<exists>g. carveCorridor grid x1 y1 x2 y2 u = Some (Inr g)"
proof (cases "u < 0.5")
  case True
  from carveLineH_ok[OF assms(1,2,4)] obtain g1
    where h: "carveLineH grid x1 x2 y1 = Some (Inr g1)" ..
  from carveLineV_ok[OF wfGrid_carveLineH[OF assms(1) h] assms(3,5)] h True
  show ?thesis by (simp add: carveCorridor_def)
next
  case False
  from carveLineV_ok[OF assms(1,3,5)] obtain g1
    where v: "carveLineV grid y1 y2 x1 = Some (Inr g1)" ..
  from carveLineH_ok[OF wfGrid_carveLineV[OF assms(1) v] assms(2,4)] v False
  show ?thesis by (simp add: carveCorridor_def)
qed

lemma wfGrid_carveCorridor:
  "wfGrid grid \<Longrightarrow> carveCorridor grid x1 y1 x2 y2 u = Some (Inr g) \<Longrightarrow> wfGrid g"
  by (simp add: wfGrid_dims carveCorridor_cells(1))

lemma carvedFrom_carveCorridor:
  "carveCorridor grid x1 y1 x2 y2 u = Some (Inr g) \<Longrightarrow> carvedFrom grid g"
  by (simp add: carvedFrom_def carveCorridor_cells)

lemma onCorridor_aligned:
  "x1 = x2 \<or> y1 = y2 \<Longrightarrow> onCorridor a x1 y1 x2 y2 cx cy = onCorridor b x1 y1 x2 y2 cx cy"
  by (auto simp: onCorridor_def onRunH_def onRunV_def)

lemma getTile_createGrid:
  "getTile (createGrid WIDTH HEIGHT fill) cx cy = (if inBounds cx cy then Some fill else None)"
  by (auto simp: getTile_def createGrid_def inBounds_def consts_defs)

text \<open>
  Claim C6, as stated, fails: the order of the two runs is drawn anew by each call, so
  the second call can carve the other L. On the all-WALL grid, from \<open>(2, 2)\<close> to
  \<open>(4, 4)\<close>, with the first draw \<open>0\<close> (horizontal first) and the second \<open>1/2\<close> (vertical
  first), the second call turns \<open>(2, 4)\<close> into FLOOR, which the first call left WALL.
\<close>

theorem carveCorridor_twice_counterexample:
  "carveCorridorTwice (createGrid WIDTH HEIGHT WALL) 2 2 4 4 0 (1 / 2)
     \<noteq> carveCorridor (createGrid WIDTH HEIGHT WALL) 2 2 4 4 0"
proof -
  let ?G = "createGrid WIDTH HEIGHT WALL"
  have b: "\<bar>2 :: int\<bar> < 2 ^ 53" "\<bar>4 :: int\<bar> < 2 ^ 53" by simp_all
  from carveCorridor_ok[OF wfGrid_createGrid b(1) b(1) b(2) b(2)] obtain g1
    where g1: "carveCorridor ?G 2 2 4 4 0 = Some (Inr g1)" by blast
  from carveCorridor_ok[OF wfGrid_carveCorridor[OF wfGrid_createGrid g1] b(1) b(1) b(2) b(2)]
  obtain g2 where g2: "carveCorridor g1 2 2 4 4 (1 / 2) = Some (Inr g2)" by blast
  have ib: "inBounds 2 4" by (simp add: inBounds_def consts_defs)
  have t0: "getTile ?G 2 4 = Some WALL"
    using ib by (simp add: getTile_createGrid)
  have t1: "getTile g1 2 4 = Some WALL"
    using carveCorridor_cells(2)[OF g1, of 2 4] t0
    by (simp add: onCorridor_def onRunH_def onRunV_def)
  have t2: "getTile g2 2 4 = Some FLOOR"
    using carveCorridor_cells(2)[OF g2, of 2 4] ib
    by (simp add: onCorridor_def onRunH_def onRunV_def)
  from t1 t2 have "g2 \<noteq> g1" by auto
  with g1 g2 show ?thesis by (simp add: carveCorridorTwice_def)
qed

text \<open>
  A call that returned a grid, repeated on that grid with the runs in the same order,
  or with endpoints in one row or one column, returns the grid unchanged: each run of
  the second call has the bounds of a run of the first, which returned, and finds FLOOR
  in every cell it writes.
\<close>

lemma carveCorridor_again:
  assumes g: "carveCorridor grid x1 y1 x2 y2 u1 = Some (Inr g)"
    and same: "(u1 < 0.5 \<longleftrightarrow> u2 < 0.5) \<or> x1 = x2 \<or> y1 = y2"
  shows "carveCorridor g x1 y1 x2 y2 u2 = Some (Inr g)"
proof -
  have on: "\<And>cx cy. onCorridor (u2 < 0.5) x1 y1 x2 y2 cx cy = onCorridor (u1 < 0.5) x1 y1 x2 y2 cx cy"
    using same onCorridor_aligned by (cases "x1 = x2 \<or> y1 = y2") auto
  have fl: "\<And>cx cy. onCorridor (u2 < 0.5) x1 y1 x2 y2 cx cy \<Longrightarrow> inBounds cx cy \<Longrightarrow> isFloor g cx cy"
    using carveCorridor_cells(2)[OF g] on by (simp add: isFloor_def)
  from carveCorridor_runs[OF g] obtain gh gh' yh gv gv' xv
    where h: "carveLineH gh x1 x2 yh = Some (Inr gh')"
    and v: "carveLineV gv y1 y2 xv = Some (Inr gv')"
    by (auto split: if_splits)
  show ?thesis
  proof (cases "u2 < 0.5")
    case True
    have "\<forall>cx. onRunH x1 x2 y1 cx y1 \<and> inBounds cx y1 \<longrightarrow> isFloor g cx y1"
      using fl True by (simp add: onCorridor_def)
    from carveLineH_rerun[OF h this] have 1: "carveLineH g x1 x2 y1 = Some (Inr g)" .
    have "\<forall>cy. onRunV y1 y2 x2 x2 cy \<and> inBounds x2 cy \<longrightarrow> isFloor g x2 cy"
      using fl True by (simp add: onCorridor_def)
    from carveLineV_rerun[OF v this] have 2: "carveLineV g y1 y2 x2 = Some (Inr g)" .
    from 1 2 True show ?thesis by (simp add: carveCorridor_def)
  next
    case False
    have "\<forall>cy. onRunV y1 y2 x1 x1 cy \<and> inBounds x1 cy \<longrightarrow> isFloor g x1 cy"
      using fl False by (simp add: onCorridor_def)
    from carveLineV_rerun[OF v this] have 1: "carveLineV g y1 y2 x1 = Some (Inr g)" .
    have "\<forall>cx. onRunH x1 x2 y2 cx y2 \<and> inBounds cx y2 \<longrightarrow> isFloor g cx y2"
      using fl False by (simp add: onCorridor_def)
    from carveLineH_rerun[OF h this] have 2: "carveLineH g x1 x2 y2 = Some (Inr g)" .
    from 1 2 False show ?thesis by (simp add: carveCorridor_def)
  qed
qed

lemma carveLineH_again:
  assumes "carveLineH grid x1 x2 y = Some (Inr g)"
  shows "carveLineH g x1 x2 y = Some (Inr g)"
proof -
  have "\<forall>cx. onRunH x1 x2 y cx y \<and> inBounds cx y \<longrightarrow> isFloor g cx y"
    using carveLineH_cells(2)[OF assms] by (simp add: isFloor_def)
  from carveLineH_rerun[OF assms this] show ?thesis .
qed

lemma carveLineV_again:
  assumes "carveLineV grid y1 y2 x = Some (Inr g)"
  shows "carveLineV g y1 y2 x = Some (Inr g)"
proof -
  have "\<forall>cy. onRunV y1 y2 x x cy \<and> inBounds x cy \<longrightarrow> isFloor g x cy"
    using carveLineV_cells(2)[OF assms] by (simp add: isFloor_def)
  from carveLineV_rerun[OF assms this] show ?thesis .
qed

text \<open>
  Claim C6, amended. For every grid and all integer endpoints, when the two calls draw
  the same order of the runs, or when the endpoints share a row or a column, calling
  \<open>carveCorridor\<close> twice with the same arguments has the outcome of calling it once: the
  second call returns the grid of the first. Each single run is idempotent without
  condition: \<open>carveLineH\<close> and \<open>carveLineV\<close>, called again with the same arguments on
  the grid they returned, return that grid.
\<close>

theorem carveCorridor_idempotent:
  "((u1 < 0.5 \<longleftrightarrow> u2 < 0.5) \<or> x1 = x2 \<or> y1 = y2 \<longrightarrow>
      carveCorridorTwice grid x1 y1 x2 y2 u1 u2 = carveCorridor grid x1 y1 x2 y2 u1) \<and>
   carveLineHTwice grid x1 x2 y = carveLineH grid x1 x2 y \<and>
   carveLineVTwice grid y1 y2 x = carveLineV grid y1 y2 x"
proof (intro conjI impI)
  assume same: "(u1 < 0.5 \<longleftrightarrow> u2 < 0.5) \<or> x1 = x2 \<or> y1 = y2"
  show "carveCorridorTwice grid x1 y1 x2 y2 u1 u2 = carveCorridor grid x1 y1 x2 y2 u1"
  proof (cases "carveCorridor grid x1 y1 x2 y2 u1")
    case None
    then show ?thesis by (simp add: carveCorridorTwice_def)
  next
    case (Some r)
    show ?thesis
    proof (cases r)
      case (Inl e)
      with Some show ?thesis by (simp add: carveCorridorTwice_def)
    next
      case (Inr g)
      with Some have "carveCorridor grid x1 y1 x2 y2 u1 = Some (Inr g)" by simp
      from this carveCorridor_again[OF this same] show ?thesis
        by (simp add: carveCorridorTwice_def)
    qed
  qed
next
  show "carveLineHTwice grid x1 x2 y = carveLineH grid x1 x2 y"
    using carveLineH_again[of grid x1 x2 y]
    by (auto simp: carveLineHTwice_def split: option.splits sum.splits)
next
  show "carveLineVTwice grid y1 y2 x = carveLineV grid y1 y2 x"
    using carveLineV_again[of grid y1 y2 x]
    by (auto simp: carveLineVTwice_def split: option.splits sum.splits)
qed

theorem carveCorridor_idempotent_witness:
  "(\<exists>g. carveCorridor (createGrid WIDTH HEIGHT WALL) 2 2 4 4 0 = Some (Inr g)) \<and>
   carveCorridorTwice (createGrid WIDTH HEIGHT WALL) 2 2 4 4 0 (1 / 4)
     = carveCorridor (createGrid WIDTH HEIGHT WALL) 2 2 4 4 0 \<and>
   carveCorridorTwice (createGrid WIDTH HEIGHT WALL) 2 2 2 4 0 (1 / 2)
     = carveCorridor (createGrid WIDTH HEIGHT WALL) 2 2 2 4 0 \<and>
   carveLineHTwice (createGrid WIDTH HEIGHT WALL) 2 4 2
     = carveLineH (createGrid WIDTH HEIGHT WALL) 2 4 2 \<and>
   carveLineVTwice (createGrid WIDTH HEIGHT WALL) 2 4 4
     = carveLineV (createGrid WIDTH HEIGHT WALL) 2 4 4"
proof -
  let ?G = "createGrid WIDTH HEIGHT WALL"
  have same: "((0 :: real) < 0.5 \<longleftrightarrow> (1 / 4 :: real) < 0.5) \<or> (2 :: int) = 4 \<or> (2 :: int) = 4"
    by simp
  have aligned: "((0 :: real) < 0.5 \<longleftrightarrow> (1 / 2 :: real) < 0.5) \<or> (2 :: int) = 2 \<or> (2 :: int) = 4"
    by simp
  have b: "\<bar>2 :: int\<bar> < 2 ^ 53" "\<bar>4 :: int\<bar> < 2 ^ 53" by simp_all
  have r: "\<exists>g. carveCorridor ?G 2 2 4 4 0 = Some (Inr g)"
    by (rule carveCorridor_ok[OF wfGrid_createGrid b(1) b(1) b(2) b(2)])
  note a = carveCorridor_idempotent[of 0 "1 / 4" 2 4 2 4 ?G 2 4]
  note c = carveCorridor_idempotent[of 0 "1 / 2" 2 2 2 4 ?G 2 4]
  from a[THEN conjunct1, THEN mp, OF same] c[THEN conjunct1, THEN mp, OF aligned]
    a[THEN conjunct2] r
  show ?thesis by (intro conjI) simp_all
qed

section \<open>What room placement does to the grid\<close>

lemma placeRooms_row_cells:
  "placeRooms_row grid yy xx xend = Inr g \<Longrightarrow>
   map length g = map length grid \<and>
   (\<forall>cx cy. getTile g cx cy =
      (if cy = yy \<and> xx \<le> cx \<and> cx < xend then Some FLOOR else getTile grid cx cy))"
proof (induction "nat (xend - xx)" arbitrary: grid xx)
  case 0
  then have "\<not> xx < xend" by simp
  with "0.prems" show ?case by (auto simp: placeRooms_row.simps[of grid yy xx xend])
next
  case (Suc n)
  then have lt: "xx < xend" and n: "n = nat (xend - (xx + 1))" by simp_all
  have eq: "\<And>c. (xx + 1 \<le> c) = (xx \<le> c \<and> c \<noteq> xx)" by arith
  from Suc.prems lt obtain g1 where s: "setTile grid xx yy FLOOR = Inr g1"
    and r: "placeRooms_row g1 yy (xx + 1) xend = Inr g"
    by (cases "setTile grid xx yy FLOOR") (simp_all add: placeRooms_row.simps[of grid yy xx xend])
  from Suc.hyps(1)[OF n r, unfolded eq] setTile_dims[OF s] getTile_setTile[OF s] lt
  show ?case by auto
qed

lemma placeRooms_row_ok:
  "wfGrid grid \<Longrightarrow> 0 \<le> xx \<Longrightarrow> xend \<le> WIDTH \<Longrightarrow> 0 \<le> yy \<Longrightarrow> yy < HEIGHT \<Longrightarrow>
   \<exists>g. placeRooms_row grid yy xx xend = Inr g"
proof (induction "nat (xend - xx)" arbitrary: grid xx)
  case 0
  then have "\<not> xx < xend" by simp
  then show ?case by (simp add: placeRooms_row.simps[of grid yy xx xend])
next
  case (Suc n)
  then have lt: "xx < xend" and n: "n = nat (xend - (xx + 1))" by simp_all
  with Suc.prems have "inBounds xx yy" by (simp add: inBounds_def)
  from setTile_ok[OF Suc.prems(1) this] obtain g1 where s: "setTile grid xx yy FLOOR = Inr g1" ..
  from Suc.hyps(1)[OF n wfGrid_setTile[OF Suc.prems(1) s]] Suc.prems s lt
  show ?case by (simp add: placeRooms_row.simps[of grid yy xx xend])
qed

lemma placeRooms_rows_cells:
  "placeRooms_rows grid yy yend x0 xend = Inr g \<Longrightarrow>
   map length g = map length grid \<and>
   (\<forall>cx cy. getTile g cx cy =
      (if yy \<le> cy \<and> cy < yend \<and> x0 \<le> cx \<and> cx < xend then Some FLOOR else getTile grid cx cy))"
proof (induction "nat (yend - yy)" arbitrary: grid yy)
  case 0
  then have "\<not> yy < yend" by simp
  with "0.prems" show ?case by (auto simp: placeRooms_rows.simps[of grid yy yend x0 xend])
next
  case (Suc n)
  then have lt: "yy < yend" and n: "n = nat (yend - (yy + 1))" by simp_all
  have eq: "\<And>c. (yy + 1 \<le> c) = (yy \<le> c \<and> c \<noteq> yy)" by arith
  from Suc.prems lt obtain g1 where s: "placeRooms_row grid yy x0 xend = Inr g1"
    and r: "placeRooms_rows g1 (yy + 1) yend x0 xend = Inr g"
    by (cases "placeRooms_row grid yy x0 xend")
      (simp_all add: placeRooms_rows.simps[of grid yy yend x0 xend])
  from Suc.hyps(1)[OF n r, unfolded eq] placeRooms_row_cells[OF s] lt
  show ?case by auto
qed

lemma placeRooms_rows_ok:
  "wfGrid grid \<Longrightarrow> 0 \<le> x0 \<Longrightarrow> xend \<le> WIDTH \<Longrightarrow> 0 \<le> yy \<Longrightarrow> yend \<le> HEIGHT \<Longrightarrow>
   \<exists>g. placeRooms_rows grid yy yend x0 xend = Inr g"
proof (induction "nat (yend - yy)" arbitrary: grid yy)
  case 0
  then have "\<not> yy < yend" by simp
  then show ?case by (simp add: placeRooms_rows.simps[of grid yy yend x0 xend])
next
  case (Suc n)
  then have lt: "yy < yend" and n: "n = nat (yend - (yy + 1))" by simp_all
  with Suc.prems have "yy < HEIGHT" by simp
  from placeRooms_row_ok[OF Suc.prems(1,2,3,4) this]
  obtain g1 where s: "placeRooms_row grid yy x0 xend = Inr g1" ..
  have "wfGrid g1" using Suc.prems(1) placeRooms_row_cells[OF s] by (simp add: wfGrid_dims)
  from Suc.hyps(1)[OF n this] Suc.prems s lt
  show ?case by (simp add: placeRooms_rows.simps[of grid yy yend x0 xend])
qed

text \<open>The footprint of a room: the cells \<open>x \<le> cx < x + w\<close>, \<open>y \<le> cy < y + h\<close>.\<close>

definition inRoom :: "Room \<Rightarrow> int \<Rightarrow> int \<Rightarrow> bool" where
  "inRoom r cx cy = (r_x r \<le> cx \<and> cx < r_x r + r_w r \<and> r_y r \<le> cy \<and> cy < r_y r + r_h r)"

text \<open>The candidate room that an iteration of \<open>placeRooms\<close> draws at position \<open>k\<close>.\<close>

definition candidateAt :: "RandomSource \<Rightarrow> nat \<Rightarrow> Room" where
  "candidateAt rs k =
     (let w = randInt ROOM_W_MIN ROOM_W_MAX (rs k);
          h = randInt ROOM_H_MIN ROOM_H_MAX (rs (k + 1));
          x = randInt 2 (WIDTH - w - 3) (rs (k + 2));
          y = randInt 2 (HEIGHT - h - 3) (rs (k + 3))
      in \<lparr>r_x = x, r_y = y, r_w = w, r_h = h\<rparr>)"

text \<open>Carving the footprint of a room, the two nested loops of \<open>placeRooms\<close>.\<close>

definition carveRoom :: "Grid \<Rightarrow> Room \<Rightarrow> error + Grid" where
  "carveRoom grid r = placeRooms_rows grid (r_y r) (r_y r + r_h r) (r_x r) (r_x r + r_w r)"

lemma carveRoom_cells:
  assumes "carveRoom grid r = Inr g"
  shows "map length g = map length grid"
    and "getTile g cx cy = (if inRoom r cx cy then Some FLOOR else getTile grid cx cy)"
  using placeRooms_rows_cells[OF assms[unfolded carveRoom_def]]
  by (auto simp: inRoom_def)

text \<open>One unfolding of the loop, in terms of \<open>candidateAt\<close> and \<open>carveRoom\<close>.\<close>

lemma placeRooms_loop_unfold:
  "placeRooms_loop rs roomCount grid rooms attempts k =
     (if int (length rooms) < roomCount \<and> attempts < 200 then
        (if list_ex (\<lambda>r. roomsOverlap r (candidateAt rs k)) rooms
         then placeRooms_loop rs roomCount grid rooms (attempts + 1) (k + 4)
         else (case carveRoom grid (candidateAt rs k) of
                 Inl e \<Rightarrow> Inl e
               | Inr g \<Rightarrow>
                   placeRooms_loop rs roomCount g (rooms @ [candidateAt rs k]) (attempts + 1) (k + 4)))
      else Inr (grid, rooms, attempts, k))"
  unfolding candidateAt_def carveRoom_def Let_def Room.simps
  by (subst placeRooms_loop.simps) (simp only: Let_def)

section \<open>The rooms that placement accepts\<close>

lemma randInt_range:
  assumes u: "0 \<le> u" "u < 1" and le: "mn \<le> mx"
  shows "mn \<le> randInt mn mx u \<and> randInt mn mx u \<le> mx"
proof -
  define n where "n = mx - mn + 1"
  have n: "1 \<le> n" using le by (simp add: n_def)
  then have npos: "0 < real_of_int n" by simp
  have lo: "0 \<le> u * real_of_int n" using u(1) npos by simp
  have "u * real_of_int n < 1 * real_of_int n"
    using u(2) npos by (rule mult_strict_right_mono)
  then have hi: "u * real_of_int n < real_of_int n" by simp
  from lo have "0 \<le> \<lfloor>u * real_of_int n\<rfloor>" by simp
  moreover from hi have "\<lfloor>u * real_of_int n\<rfloor> < n" by (simp add: floor_less_iff)
  ultimately show ?thesis by (simp add: randInt_def n_def)
qed

text \<open>The margin bounds of a room, and the range of its size.\<close>

definition inMargins :: "Room \<Rightarrow> bool" where
  "inMargins r = (2 \<le> r_x r \<and> 2 \<le> r_y r \<and> r_x r + r_w r \<le> WIDTH - 3 \<and> r_y r + r_h r \<le> HEIGHT - 3)"

definition sizeInRange :: "Room \<Rightarrow> bool" where
  "sizeInRange r = (ROOM_W_MIN \<le> r_w r \<and> r_w r \<le> ROOM_W_MAX \<and> ROOM_H_MIN \<le> r_h r \<and> r_h r \<le> ROOM_H_MAX)"

lemma candidateAt_ok:
  assumes "unitDraws rs"
  shows "inMargins (candidateAt rs k) \<and> sizeInRange (candidateAt rs k)"
proof -
  define w where "w = randInt ROOM_W_MIN ROOM_W_MAX (rs k)"
  define h where "h = randInt ROOM_H_MIN ROOM_H_MAX (rs (k + 1))"
  define x where "x = randInt 2 (WIDTH - w - 3) (rs (k + 2))"
  define y where "y = randInt 2 (HEIGHT - h - 3) (rs (k + 3))"
  have u: "\<And>i. 0 \<le> rs i" "\<And>i. rs i < 1" using assms by (simp_all add: unitDraws_def)
  have w: "ROOM_W_MIN \<le> w \<and> w \<le> ROOM_W_MAX"
    unfolding w_def by (rule randInt_range[OF u]) (simp add: consts_defs)
  have h: "ROOM_H_MIN \<le> h \<and> h \<le> ROOM_H_MAX"
    unfolding h_def by (rule randInt_range[OF u]) (simp add: consts_defs)
  have x: "2 \<le> x \<and> x \<le> WIDTH - w - 3"
    unfolding x_def by (rule randInt_range[OF u]) (use w in \<open>simp add: consts_defs\<close>)
  have y: "2 \<le> y \<and> y \<le> HEIGHT - h - 3"
    unfolding y_def by (rule randInt_range[OF u]) (use h in \<open>simp add: consts_defs\<close>)
  have c: "candidateAt rs k = \<lparr>r_x = x, r_y = y, r_w = w, r_h = h\<rparr>"
    by (simp add: candidateAt_def w_def h_def x_def y_def Let_def)
  from w h x y show ?thesis by (simp add: c inMargins_def sizeInRange_def)
qed

lemma carveRoom_ok:
  assumes "wfGrid grid" and "inMargins r"
  shows "\<exists>g. carveRoom grid r = Inr g"
  unfolding carveRoom_def
  by (rule placeRooms_rows_ok[OF assms(1)]) (use assms(2) in \<open>simp_all add: inMargins_def\<close>)

lemma wfGrid_carveRoom: "wfGrid grid \<Longrightarrow> carveRoom grid r = Inr g \<Longrightarrow> wfGrid g"
  by (simp add: wfGrid_dims carveRoom_cells(1))

text \<open>
  An invariant rule for the \<open>while\<close> loop of \<open>placeRooms\<close>: a property of the loop state
  that holds at the start and is kept by a rejecting and by an accepting iteration
  holds at the end, where the loop condition is false.
\<close>

lemma placeRooms_loop_inv:
  assumes run: "placeRooms_loop rs roomCount grid rooms attempts k = Inr (g', rooms', attempts', k')"
    and init: "I grid rooms attempts k"
    and reject: "\<And>grid rooms attempts k.
        I grid rooms attempts k \<Longrightarrow> int (length rooms) < roomCount \<Longrightarrow> attempts < 200 \<Longrightarrow>
        list_ex (\<lambda>r. roomsOverlap r (candidateAt rs k)) rooms \<Longrightarrow>
        I grid rooms (attempts + 1) (k + 4)"
    and accept: "\<And>grid rooms attempts k g.
        I grid rooms attempts k \<Longrightarrow> int (length rooms) < roomCount \<Longrightarrow> attempts < 200 \<Longrightarrow>
        \<not> list_ex (\<lambda>r. roomsOverlap r (candidateAt rs k)) rooms \<Longrightarrow>
        carveRoom grid (candidateAt rs k) = Inr g \<Longrightarrow>
        I g (rooms @ [candidateAt rs k]) (attempts + 1) (k + 4)"
  shows "I g' rooms' attempts' k' \<and> \<not> (int (length rooms') < roomCount \<and> attempts' < 200)"
  using run init
proof (induction "nat (200 - attempts)" arbitrary: grid rooms attempts k)
  case 0
  then have "\<not> attempts < 200" by simp
  with "0.prems" show ?case
    by (simp add: placeRooms_loop_unfold[of rs roomCount grid rooms attempts k])
next
  case (Suc n)
  then have a: "attempts < 200" and n: "n = nat (200 - (attempts + 1))" by simp_all
  show ?case
  proof (cases "int (length rooms) < roomCount")
    case False
    with Suc.prems show ?thesis
      by (simp add: placeRooms_loop_unfold[of rs roomCount grid rooms attempts k])
  next
    case True
    note l = True
    show ?thesis
    proof (cases "list_ex (\<lambda>r. roomsOverlap r (candidateAt rs k)) rooms")
      case True
      with Suc.prems(1) l a
      have r: "placeRooms_loop rs roomCount grid rooms (attempts + 1) (k + 4)
                 = Inr (g', rooms', attempts', k')"
        by (simp add: placeRooms_loop_unfold[of rs roomCount grid rooms attempts k])
      from Suc.hyps(1)[OF n r reject[OF Suc.prems(2) l a True]] show ?thesis .
    next
      case False
      with Suc.prems(1) l a obtain g where c: "carveRoom grid (candidateAt rs k) = Inr g"
        and r: "placeRooms_loop rs roomCount g (rooms @ [candidateAt rs k]) (attempts + 1) (k + 4)
                 = Inr (g', rooms', attempts', k')"
        by (cases "carveRoom grid (candidateAt rs k)")
          (simp_all add: placeRooms_loop_unfold[of rs roomCount grid rooms attempts k])
      from Suc.hyps(1)[OF n r accept[OF Suc.prems(2) l a False c]] show ?thesis .
    qed
  qed
qed

text \<open>With draws from the unit interval, the loop returns normally on a well-formed grid.\<close>

lemma placeRooms_loop_ok:
  assumes u: "unitDraws rs"
  shows "wfGrid grid \<Longrightarrow> \<exists>res. placeRooms_loop rs roomCount grid rooms attempts k = Inr res"
proof (induction "nat (200 - attempts)" arbitrary: grid rooms attempts k)
  case 0
  then have "\<not> attempts < 200" by simp
  then show ?case
    by (simp add: placeRooms_loop_unfold[of rs roomCount grid rooms attempts k])
next
  case (Suc n)
  then have a: "attempts < 200" and n: "n = nat (200 - (attempts + 1))" by simp_all
  from candidateAt_ok[OF u] have m: "inMargins (candidateAt rs k)" by simp
  from carveRoom_ok[OF Suc.prems m] obtain g where c: "carveRoom grid (candidateAt rs k) = Inr g" ..
  from Suc.hyps(1)[OF n Suc.prems] Suc.hyps(1)[OF n wfGrid_carveRoom[OF Suc.prems c]] c
  show ?case
    by (simp add: placeRooms_loop_unfold[of rs roomCount grid rooms attempts k])
qed

lemma unitDraws_const: "unitDraws (\<lambda>_. 0)"
  by (simp add: unitDraws_def)

lemma placeRooms_result:
  "placeRooms_loop rs roomCount grid [] 0 k = Inr (g, rooms, attempts, k') \<Longrightarrow>
   placeRooms rs k grid roomCount = Inr (rooms, g, k')"
  by (simp add: placeRooms_def)

lemma placeRooms_ok:
  assumes "unitDraws rs" and "wfGrid grid"
  obtains g rooms attempts k'
  where "placeRooms_loop rs roomCount grid [] 0 k = Inr (g, rooms, attempts, k')"
    and "placeRooms rs k grid roomCount = Inr (rooms, g, k')"
proof -
  from placeRooms_loop_ok[OF assms] obtain res
    where "placeRooms_loop rs roomCount grid [] 0 k = Inr res" by blast
  then obtain g rooms attempts k'
    where r: "placeRooms_loop rs roomCount grid [] 0 k = Inr (g, rooms, attempts, k')"
    by (cases res) auto
  from that[OF r placeRooms_result[OF r]] show thesis .
qed

lemma inMargins_cells:
  "inMargins r \<Longrightarrow> inRoom r cx cy \<Longrightarrow>
   2 \<le> cx \<and> cx < WIDTH - 3 \<and> 2 \<le> cy \<and> cy < HEIGHT - 3 \<and> inBounds cx cy"
  by (auto simp: inMargins_def inRoom_def inBounds_def)

text \<open>
  Claim C5. With draws from the unit interval and a well-formed grid, \<open>placeRooms\<close>
  returns, and every room of the returned list satisfies \<open>2 \<le> x\<close>, \<open>2 \<le> y\<close>,
  \<open>x + w \<le> WIDTH - 3\<close> and \<open>y + h \<le> HEIGHT - 3\<close>; so every cell of its footprint has
  \<open>2 \<le> cx < WIDTH - 3\<close> and \<open>2 \<le> cy < HEIGHT - 3\<close>, inside the grid and at least two
  cells from each edge.
\<close>

theorem placeRooms_in_margins:
  assumes "unitDraws rs" and "wfGrid grid"
  shows "\<exists>rooms g k'. placeRooms rs k grid roomCount = Inr (rooms, g, k') \<and>
           (\<forall>r \<in> set rooms.
              2 \<le> r_x r \<and> 2 \<le> r_y r \<and> r_x r + r_w r \<le> WIDTH - 3 \<and> r_y r + r_h r \<le> HEIGHT - 3 \<and>
              (\<forall>cx cy. inRoom r cx cy \<longrightarrow>
                 2 \<le> cx \<and> cx < WIDTH - 3 \<and> 2 \<le> cy \<and> cy < HEIGHT - 3 \<and> inBounds cx cy))"
proof -
  from placeRooms_ok[OF assms] obtain g rooms attempts k'
    where run: "placeRooms_loop rs roomCount grid [] 0 k = Inr (g, rooms, attempts, k')"
      and res: "placeRooms rs k grid roomCount = Inr (rooms, g, k')" by blast
  have "(\<forall>r \<in> set rooms. inMargins r) \<and> \<not> (int (length rooms) < roomCount \<and> attempts < 200)"
  proof (rule placeRooms_loop_inv[OF run, where I = "\<lambda>grid rooms attempts k. \<forall>r \<in> set rooms. inMargins r"])
    show "\<forall>r \<in> set []. inMargins r" by simp
  next
    fix rooms :: "Room list"
    assume "\<forall>r \<in> set rooms. inMargins r"
    then show "\<forall>r \<in> set rooms. inMargins r" .
  next
    fix rooms :: "Room list" and k
    assume "\<forall>r \<in> set rooms. inMargins r"
    with candidateAt_ok[OF assms(1), of k]
    show "\<forall>r \<in> set (rooms @ [candidateAt rs k]). inMargins r" by simp
  qed
  then have m: "\<forall>r \<in> set rooms. inMargins r" by simp
  have "\<forall>r \<in> set rooms.
          2 \<le> r_x r \<and> 2 \<le> r_y r \<and> r_x r + r_w r \<le> WIDTH - 3 \<and> r_y r + r_h r \<le> HEIGHT - 3 \<and>
          (\<forall>cx cy. inRoom r cx cy \<longrightarrow>
             2 \<le> cx \<and> cx < WIDTH - 3 \<and> 2 \<le> cy \<and> cy < HEIGHT - 3 \<and> inBounds cx cy)"
  proof
    fix r assume "r \<in> set rooms"
    with m have r: "inMargins r" by blast
    from r have "2 \<le> r_x r \<and> 2 \<le> r_y r \<and> r_x r + r_w r \<le> WIDTH - 3 \<and> r_y r + r_h r \<le> HEIGHT - 3"
      by (simp add: inMargins_def)
    with inMargins_cells[OF r]
    show "2 \<le> r_x r \<and> 2 \<le> r_y r \<and> r_x r + r_w r \<le> WIDTH - 3 \<and> r_y r + r_h r \<le> HEIGHT - 3 \<and>
          (\<forall>cx cy. inRoom r cx cy \<longrightarrow>
             2 \<le> cx \<and> cx < WIDTH - 3 \<and> 2 \<le> cy \<and> cy < HEIGHT - 3 \<and> inBounds cx cy)"
      by blast
  qed
  with res show ?thesis by blast
qed

theorem placeRooms_in_margins_witness:
  "unitDraws (\<lambda>_. 0) \<and> wfGrid (createGrid WIDTH HEIGHT WALL) \<and>
   (\<exists>rooms g k'. placeRooms (\<lambda>_. 0) 0 (createGrid WIDTH HEIGHT WALL) 3 = Inr (rooms, g, k') \<and>
      (\<forall>r \<in> set rooms.
         2 \<le> r_x r \<and> 2 \<le> r_y r \<and> r_x r + r_w r \<le> WIDTH - 3 \<and> r_y r + r_h r \<le> HEIGHT - 3 \<and>
         (\<forall>cx cy. inRoom r cx cy \<longrightarrow>
            2 \<le> cx \<and> cx < WIDTH - 3 \<and> 2 \<le> cy \<and> cy < HEIGHT - 3 \<and> inBounds cx cy)))"
  using placeRooms_in_margins[OF unitDraws_const wfGrid_createGrid[of WALL], of 0 3]
    unitDraws_const wfGrid_createGrid[of WALL]
  by simp

text \<open>
  Claim C4. For every \<open>roomCount \<ge> 0\<close>, with draws from the unit interval and a
  well-formed grid, the loop of \<open>placeRooms\<close> returns normally. Its counter \<open>attempts\<close>,
  incremented once in every iteration, ends at most at 200, and the loop has made four
  draws for each of these iterations; the list returned has at most \<open>roomCount\<close> rooms
  and at most one room for each iteration, and fewer than \<open>roomCount\<close> only when all
  200 iterations were made.
\<close>

theorem placeRooms_bounded:
  assumes "unitDraws rs" and "wfGrid grid" and "0 \<le> roomCount"
  shows "\<exists>g rooms attempts k'.
           placeRooms_loop rs roomCount grid [] 0 k = Inr (g, rooms, attempts, k') \<and>
           placeRooms rs k grid roomCount = Inr (rooms, g, k') \<and>
           0 \<le> attempts \<and> attempts \<le> 200 \<and> k' = k + 4 * nat attempts \<and>
           int (length rooms) \<le> roomCount \<and> int (length rooms) \<le> attempts \<and>
           (int (length rooms) < roomCount \<longrightarrow> attempts = 200)"
proof -
  from placeRooms_ok[OF assms(1,2)] obtain g rooms attempts k'
    where run: "placeRooms_loop rs roomCount grid [] 0 k = Inr (g, rooms, attempts, k')"
      and res: "placeRooms rs k grid roomCount = Inr (rooms, g, k')" by blast
  let ?I = "\<lambda>(grid :: Grid) (rooms :: Room list) attempts j.
              0 \<le> attempts \<and> attempts \<le> 200 \<and> j = k + 4 * nat attempts \<and>
              int (length rooms) \<le> roomCount \<and> int (length rooms) \<le> attempts"
  have "?I g rooms attempts k' \<and> \<not> (int (length rooms) < roomCount \<and> attempts < 200)"
  proof (rule placeRooms_loop_inv[OF run, where I = ?I])
    show "?I grid [] 0 k" using assms(3) by simp
  next
    fix grid :: Grid and rooms :: "Room list" and attempts :: int and j :: nat
    assume "?I grid rooms attempts j" and "attempts < 200"
    then show "?I grid rooms (attempts + 1) (j + 4)" by (simp add: nat_add_distrib)
  next
    fix grid g :: Grid and rooms :: "Room list" and attempts :: int and j :: nat
    assume "?I grid rooms attempts j" and "attempts < 200" and "int (length rooms) < roomCount"
    then show "?I g (rooms @ [candidateAt rs j]) (attempts + 1) (j + 4)"
      by (simp add: nat_add_distrib)
  qed
  with run res show ?thesis by (intro exI[of _ g] exI[of _ rooms] exI[of _ attempts] exI[of _ k']) auto
qed

theorem placeRooms_bounded_witness:
  "unitDraws (\<lambda>_. 0) \<and> wfGrid (createGrid WIDTH HEIGHT WALL) \<and> (0 :: int) \<le> 1000 \<and>
   (\<exists>g rooms attempts k'.
      placeRooms_loop (\<lambda>_. 0) 1000 (createGrid WIDTH HEIGHT WALL) [] 0 0 = Inr (g, rooms, attempts, k') \<and>
      placeRooms (\<lambda>_. 0) 0 (createGrid WIDTH HEIGHT WALL) 1000 = Inr (rooms, g, k') \<and>
      attempts = 200 \<and> k' = 800 \<and> int (length rooms) < 1000)"
proof -
  have h: "(0 :: int) \<le> 1000" by simp
  from placeRooms_bounded[OF unitDraws_const wfGrid_createGrid[of WALL] h, of 0]
  obtain g rooms attempts k'
    where "placeRooms_loop (\<lambda>_. 0) 1000 (createGrid WIDTH HEIGHT WALL) [] 0 0
             = Inr (g, rooms, attempts, k')"
      and "placeRooms (\<lambda>_. 0) 0 (createGrid WIDTH HEIGHT WALL) 1000 = Inr (rooms, g, k')"
      and "0 \<le> attempts \<and> attempts \<le> 200 \<and> k' = 0 + 4 * nat attempts \<and>
           int (length rooms) \<le> 1000 \<and> int (length rooms) \<le> attempts \<and>
           (int (length rooms) < 1000 \<longrightarrow> attempts = 200)"
    by (elim exE conjE) (rule that, (assumption | intro conjI)+)
  moreover from this(3) have "attempts = 200 \<and> k' = 800 \<and> int (length rooms) < 1000"
    by auto
  ultimately show ?thesis
    using unitDraws_const wfGrid_createGrid[of WALL] h by blast
qed

section \<open>A run that places two rooms\<close>

text \<open>
  With every draw \<open>0\<close> except draw number 6, which is \<open>1/2\<close>, the first two candidates
  are the 4 by 2 rooms at \<open>(2, 2)\<close> and at \<open>(30, 2)\<close>, and both are accepted.
\<close>

lemma candidateAt_first:
  "candidateAt (\<lambda>n. if n = 6 then 1 / 2 else 0) 0 = \<lparr>r_x = 2, r_y = 2, r_w = 4, r_h = 2\<rparr>"
  by (simp add: candidateAt_def randInt_def consts_defs Let_def)

lemma candidateAt_second:
  "candidateAt (\<lambda>n. if n = 6 then 1 / 2 else 0) 4 = \<lparr>r_x = 30, r_y = 2, r_w = 4, r_h = 2\<rparr>"
  by (simp add: candidateAt_def randInt_def consts_defs Let_def)

lemma unitDraws_two: "unitDraws (\<lambda>n. if n = 6 then 1 / 2 else 0)"
  by (simp add: unitDraws_def)

lemma placeRooms_two:
  "\<exists>g. placeRooms (\<lambda>n. if n = 6 then 1 / 2 else 0) 0 (createGrid WIDTH HEIGHT WALL) 2
         = Inr ([\<lparr>r_x = 2, r_y = 2, r_w = 4, r_h = 2\<rparr>, \<lparr>r_x = 30, r_y = 2, r_w = 4, r_h = 2\<rparr>], g, 8)"
proof -
  let ?rs = "\<lambda>n :: nat. if n = 6 then 1 / 2 else (0 :: real)"
  let ?r1 = "\<lparr>r_x = 2, r_y = 2, r_w = 4, r_h = 2\<rparr>"
  let ?r2 = "\<lparr>r_x = 30, r_y = 2, r_w = 4, r_h = 2\<rparr>"
  let ?G = "createGrid WIDTH HEIGHT WALL"
  have m1: "inMargins ?r1" and m2: "inMargins ?r2" by (simp_all add: inMargins_def consts_defs)
  from carveRoom_ok[OF wfGrid_createGrid m1] obtain g1 where g1: "carveRoom ?G ?r1 = Inr g1" ..
  from carveRoom_ok[OF wfGrid_carveRoom[OF wfGrid_createGrid g1] m2]
  obtain g2 where g2: "carveRoom g1 ?r2 = Inr g2" ..
  have 3: "placeRooms_loop ?rs 2 g2 [?r1, ?r2] 2 8 = Inr (g2, [?r1, ?r2], 2, 8)"
    by (simp add: placeRooms_loop_unfold[of ?rs 2 g2 "[?r1, ?r2]" 2 8])
  have 2: "placeRooms_loop ?rs 2 g1 [?r1] 1 4 = Inr (g2, [?r1, ?r2], 2, 8)"
    using g2 3
    by (simp add: placeRooms_loop_unfold[of ?rs 2 g1 "[?r1]" 1 4] candidateAt_second roomsOverlap_def)
  have 1: "placeRooms_loop ?rs 2 ?G [] 0 0 = Inr (g2, [?r1, ?r2], 2, 8)"
    using g1 2
    by (simp add: placeRooms_loop_unfold[of ?rs 2 ?G "[]" 0 0] candidateAt_first)
  then show ?thesis by (simp add: placeRooms_def)
qed

section \<open>Separation of the accepted rooms\<close>

text \<open>The bounding box of a room expanded by one cell on its max edges.\<close>

definition inExpanded :: "Room \<Rightarrow> int \<Rightarrow> int \<Rightarrow> bool" where
  "inExpanded r cx cy =
     (r_x r \<le> cx \<and> cx < r_x r + r_w r + 1 \<and> r_y r \<le> cy \<and> cy < r_y r + r_h r + 1)"

lemma roomsOverlap_sym: "roomsOverlap a b = roomsOverlap b a"
  by (auto simp: roomsOverlap_def)

lemma no_overlap_expanded:
  "\<not> roomsOverlap a b \<Longrightarrow> \<not> (inExpanded a cx cy \<and> inExpanded b cx cy)"
  by (auto simp: roomsOverlap_def inExpanded_def)

lemma overlap_expanded:
  assumes "roomsOverlap a b" and "0 \<le> r_w a" "0 \<le> r_h a" "0 \<le> r_w b" "0 \<le> r_h b"
  shows "\<exists>cx cy. inExpanded a cx cy \<and> inExpanded b cx cy"
proof -
  from assms have "inExpanded a (max (r_x a) (r_x b)) (max (r_y a) (r_y b)) \<and>
                   inExpanded b (max (r_x a) (r_x b)) (max (r_y a) (r_y b))"
    by (auto simp: roomsOverlap_def inExpanded_def max_def)
  then show ?thesis by blast
qed

lemma no_overlap_apart:
  assumes "\<not> roomsOverlap a b" and "inRoom a cx cy" and "inRoom b dx dy"
  shows "2 \<le> \<bar>cx - dx\<bar> \<or> 2 \<le> \<bar>cy - dy\<bar>"
  using assms by (auto simp: roomsOverlap_def inRoom_def)

lemma sizeInRange_nonneg: "sizeInRange r \<Longrightarrow> 0 \<le> r_w r \<and> 0 \<le> r_h r"
  by (simp add: sizeInRange_def consts_defs)

text \<open>The rooms of a list are pairwise free of overlap.\<close>

definition separated :: "Room list \<Rightarrow> bool" where
  "separated rooms =
     (\<forall>i < length rooms. \<forall>j < length rooms. i \<noteq> j \<longrightarrow> \<not> roomsOverlap (rooms ! i) (rooms ! j))"

lemma separated_append:
  assumes s: "separated rooms" and c: "\<not> list_ex (\<lambda>r. roomsOverlap r c) rooms"
  shows "separated (rooms @ [c])"
  unfolding separated_def
proof (intro allI impI)
  fix i j
  assume i: "i < length (rooms @ [c])" and j: "j < length (rooms @ [c])" and ne: "i \<noteq> j"
  from c have nc: "\<And>n. n < length rooms \<Longrightarrow> \<not> roomsOverlap (rooms ! n) c"
    by (simp add: list_ex_iff)
  consider "i < length rooms" "j < length rooms"
    | "i < length rooms" "j = length rooms"
    | "i = length rooms" "j < length rooms"
    using i j ne by (simp add: less_Suc_eq) arith
  then show "\<not> roomsOverlap ((rooms @ [c]) ! i) ((rooms @ [c]) ! j)"
  proof cases
    case 1
    with s ne show ?thesis by (simp add: separated_def nth_append)
  next
    case 2
    with nc[of i] show ?thesis by (simp add: nth_append)
  next
    case 3
    with nc[of j] show ?thesis by (simp add: nth_append roomsOverlap_sym[of c])
  qed
qed

text \<open>
  What the loop of \<open>placeRooms\<close> keeps: the rooms are inside the margins, of a size in
  range and pairwise free of overlap; the grid is well-formed; a cell of a room holds
  FLOOR and any other cell is as in the grid \<open>grid0\<close> the loop started from.
\<close>

definition placed :: "Grid \<Rightarrow> Grid \<Rightarrow> Room list \<Rightarrow> bool" where
  "placed grid0 grid rooms =
     (wfGrid grid \<and> separated rooms \<and>
      (\<forall>r \<in> set rooms. inMargins r \<and> sizeInRange r) \<and>
      (\<forall>cx cy. getTile grid cx cy =
         (if \<exists>r \<in> set rooms. inRoom r cx cy then Some FLOOR else getTile grid0 cx cy)))"

lemma placeRooms_loop_placed:
  assumes u: "unitDraws rs"
    and run: "placeRooms_loop rs roomCount grid rooms attempts k = Inr (g', rooms', attempts', k')"
    and init: "placed grid0 grid rooms"
  shows "placed grid0 g' rooms'"
proof -
  have "placed grid0 g' rooms' \<and> \<not> (int (length rooms') < roomCount \<and> attempts' < 200)"
  proof (rule placeRooms_loop_inv[OF run, where I = "\<lambda>grid rooms attempts k. placed grid0 grid rooms"])
    show "placed grid0 grid rooms" by (rule init)
  next
    fix grid :: Grid and rooms :: "Room list"
    assume "placed grid0 grid rooms"
    then show "placed grid0 grid rooms" .
  next
    fix grid g :: Grid and rooms :: "Room list" and k
    assume p: "placed grid0 grid rooms"
      and c: "\<not> list_ex (\<lambda>r. roomsOverlap r (candidateAt rs k)) rooms"
      and g: "carveRoom grid (candidateAt rs k) = Inr g"
    from p have wf: "wfGrid grid" and s: "separated rooms"
      and m: "\<forall>r \<in> set rooms. inMargins r \<and> sizeInRange r"
      and t: "\<And>cx cy. getTile grid cx cy =
         (if \<exists>r \<in> set rooms. inRoom r cx cy then Some FLOOR else getTile grid0 cx cy)"
      by (simp_all add: placed_def)
    have "\<And>cx cy. getTile g cx cy =
         (if \<exists>r \<in> set (rooms @ [candidateAt rs k]). inRoom r cx cy then Some FLOOR
          else getTile grid0 cx cy)"
      using carveRoom_cells(2)[OF g] t by auto
    with wfGrid_carveRoom[OF wf g] separated_append[OF s c] m candidateAt_ok[OF u, of k]
    show "placed grid0 g (rooms @ [candidateAt rs k])"
      by (simp add: placed_def)
  qed
  then show ?thesis by simp
qed

lemma placed_init: "wfGrid grid \<Longrightarrow> placed grid grid []"
  by (simp add: placed_def separated_def)

lemma placeRooms_placed:
  assumes "unitDraws rs" and "wfGrid grid"
  obtains rooms g k' where "placeRooms rs k grid roomCount = Inr (rooms, g, k')"
    and "placed grid g rooms"
proof -
  from placeRooms_ok[OF assms] obtain g rooms attempts k'
    where run: "placeRooms_loop rs roomCount grid [] 0 k = Inr (g, rooms, attempts, k')"
      and res: "placeRooms rs k grid roomCount = Inr (rooms, g, k')" by blast
  from that[OF res placeRooms_loop_placed[OF assms(1) run placed_init[OF assms(2)]]]
  show thesis .
qed

text \<open>
  Claim C2. With draws from the unit interval and a well-formed grid, \<open>placeRooms\<close>
  returns a list in which, for every two rooms at distinct positions, \<open>roomsOverlap\<close>
  is false and the two bounding boxes, each expanded by one cell on its max edges, share
  no cell; for rooms of the list the two formulations agree. Cells of two distinct
  rooms are at least two apart in one coordinate, and every cell that touches a room
  (also diagonally) without belonging to it lies in no room and is left as it was in
  the grid passed in: WALL in the grid that \<open>generateDungeon\<close> passes.
\<close>

theorem placeRooms_no_overlap:
  assumes "unitDraws rs" and "wfGrid grid"
  shows "\<exists>rooms g k'. placeRooms rs k grid roomCount = Inr (rooms, g, k') \<and>
           (\<forall>i < length rooms. \<forall>j < length rooms.
              (roomsOverlap (rooms ! i) (rooms ! j) \<longleftrightarrow>
                 (\<exists>cx cy. inExpanded (rooms ! i) cx cy \<and> inExpanded (rooms ! j) cx cy)) \<and>
              (i \<noteq> j \<longrightarrow>
                 \<not> roomsOverlap (rooms ! i) (rooms ! j) \<and>
                 (\<forall>cx cy dx dy. inRoom (rooms ! i) cx cy \<and> inRoom (rooms ! j) dx dy \<longrightarrow>
                    2 \<le> \<bar>cx - dx\<bar> \<or> 2 \<le> \<bar>cy - dy\<bar>))) \<and>
           (\<forall>i < length rooms. \<forall>cx cy dx dy.
              inRoom (rooms ! i) dx dy \<and> \<bar>cx - dx\<bar> \<le> 1 \<and> \<bar>cy - dy\<bar> \<le> 1 \<and>
              \<not> inRoom (rooms ! i) cx cy \<longrightarrow>
              (\<forall>r \<in> set rooms. \<not> inRoom r cx cy) \<and> getTile g cx cy = getTile grid cx cy)"
proof -
  from placeRooms_placed[OF assms] obtain rooms g k'
    where res: "placeRooms rs k grid roomCount = Inr (rooms, g, k')"
      and p: "placed grid g rooms" by blast
  from p have s: "separated rooms"
    and m: "\<forall>r \<in> set rooms. sizeInRange r"
    and t: "\<And>cx cy. getTile g cx cy =
         (if \<exists>r \<in> set rooms. inRoom r cx cy then Some FLOOR else getTile grid cx cy)"
    by (simp_all add: placed_def)
  have a: "\<forall>i < length rooms. \<forall>j < length rooms.
              (roomsOverlap (rooms ! i) (rooms ! j) \<longleftrightarrow>
                 (\<exists>cx cy. inExpanded (rooms ! i) cx cy \<and> inExpanded (rooms ! j) cx cy)) \<and>
              (i \<noteq> j \<longrightarrow>
                 \<not> roomsOverlap (rooms ! i) (rooms ! j) \<and>
                 (\<forall>cx cy dx dy. inRoom (rooms ! i) cx cy \<and> inRoom (rooms ! j) dx dy \<longrightarrow>
                    2 \<le> \<bar>cx - dx\<bar> \<or> 2 \<le> \<bar>cy - dy\<bar>))"
  proof (intro allI impI)
    fix i j assume i: "i < length rooms" and j: "j < length rooms"
    from m i j have si: "0 \<le> r_w (rooms ! i) \<and> 0 \<le> r_h (rooms ! i)"
      and sj: "0 \<le> r_w (rooms ! j) \<and> 0 \<le> r_h (rooms ! j)"
      by (simp_all add: sizeInRange_nonneg)
    have e: "roomsOverlap (rooms ! i) (rooms ! j) \<longleftrightarrow>
          (\<exists>cx cy. inExpanded (rooms ! i) cx cy \<and> inExpanded (rooms ! j) cx cy)"
      using overlap_expanded[of "rooms ! i" "rooms ! j"] si sj
        no_overlap_expanded[of "rooms ! i" "rooms ! j"] by blast
    have "i \<noteq> j \<longrightarrow>
          \<not> roomsOverlap (rooms ! i) (rooms ! j) \<and>
          (\<forall>cx cy dx dy. inRoom (rooms ! i) cx cy \<and> inRoom (rooms ! j) dx dy \<longrightarrow>
             2 \<le> \<bar>cx - dx\<bar> \<or> 2 \<le> \<bar>cy - dy\<bar>)"
    proof
      assume "i \<noteq> j"
      with s i j have n: "\<not> roomsOverlap (rooms ! i) (rooms ! j)" by (simp add: separated_def)
      with no_overlap_apart[OF n]
      show "\<not> roomsOverlap (rooms ! i) (rooms ! j) \<and>
          (\<forall>cx cy dx dy. inRoom (rooms ! i) cx cy \<and> inRoom (rooms ! j) dx dy \<longrightarrow>
             2 \<le> \<bar>cx - dx\<bar> \<or> 2 \<le> \<bar>cy - dy\<bar>)" by blast
    qed
    with e show "(roomsOverlap (rooms ! i) (rooms ! j) \<longleftrightarrow>
                 (\<exists>cx cy. inExpanded (rooms ! i) cx cy \<and> inExpanded (rooms ! j) cx cy)) \<and>
              (i \<noteq> j \<longrightarrow>
                 \<not> roomsOverlap (rooms ! i) (rooms ! j) \<and>
                 (\<forall>cx cy dx dy. inRoom (rooms ! i) cx cy \<and> inRoom (rooms ! j) dx dy \<longrightarrow>
                    2 \<le> \<bar>cx - dx\<bar> \<or> 2 \<le> \<bar>cy - dy\<bar>))" by blast
  qed
  have b: "\<forall>i < length rooms. \<forall>cx cy dx dy.
              inRoom (rooms ! i) dx dy \<and> \<bar>cx - dx\<bar> \<le> 1 \<and> \<bar>cy - dy\<bar> \<le> 1 \<and>
              \<not> inRoom (rooms ! i) cx cy \<longrightarrow>
              (\<forall>r \<in> set rooms. \<not> inRoom r cx cy) \<and> getTile g cx cy = getTile grid cx cy"
  proof (intro allI impI)
    fix i cx cy dx dy
    assume i: "i < length rooms"
      and h: "inRoom (rooms ! i) dx dy \<and> \<bar>cx - dx\<bar> \<le> 1 \<and> \<bar>cy - dy\<bar> \<le> 1 \<and> \<not> inRoom (rooms ! i) cx cy"
    have none: "\<forall>r \<in> set rooms. \<not> inRoom r cx cy"
    proof
      fix r assume "r \<in> set rooms"
      then obtain j where j: "j < length rooms" and r: "r = rooms ! j"
        by (auto simp: in_set_conv_nth)
      show "\<not> inRoom r cx cy"
      proof (cases "j = i")
        case True
        with h r show ?thesis by simp
      next
        case False
        with s i j have n: "\<not> roomsOverlap (rooms ! i) (rooms ! j)" by (simp add: separated_def)
        show ?thesis
        proof
          assume "inRoom r cx cy"
          with no_overlap_apart[OF n, of dx dy cx cy] h r show False by auto
        qed
      qed
    qed
    with t[of cx cy]
    show "(\<forall>r \<in> set rooms. \<not> inRoom r cx cy) \<and> getTile g cx cy = getTile grid cx cy" by simp
  qed
  from res a b show ?thesis by blast
qed

theorem placeRooms_no_overlap_witness:
  "unitDraws (\<lambda>n. if n = 6 then 1 / 2 else 0) \<and> wfGrid (createGrid WIDTH HEIGHT WALL) \<and>
   (\<exists>rooms g k'.
      placeRooms (\<lambda>n. if n = 6 then 1 / 2 else 0) 0 (createGrid WIDTH HEIGHT WALL) 2
        = Inr (rooms, g, k') \<and>
      rooms = [\<lparr>r_x = 2, r_y = 2, r_w = 4, r_h = 2\<rparr>, \<lparr>r_x = 30, r_y = 2, r_w = 4, r_h = 2\<rparr>] \<and>
      \<not> roomsOverlap (rooms ! 0) (rooms ! 1) \<and>
      \<not> (\<exists>cx cy. inExpanded (rooms ! 0) cx cy \<and> inExpanded (rooms ! 1) cx cy) \<and>
      getTile g 6 2 = Some WALL)"
proof -
  let ?rs = "\<lambda>n :: nat. if n = 6 then 1 / 2 else (0 :: real)"
  let ?G = "createGrid WIDTH HEIGHT WALL"
  let ?rooms = "[\<lparr>r_x = 2, r_y = 2, r_w = 4, r_h = 2\<rparr>, \<lparr>r_x = 30, r_y = 2, r_w = 4, r_h = 2\<rparr>]"
  from placeRooms_no_overlap[OF unitDraws_two wfGrid_createGrid[of WALL], of 0 2]
  obtain rooms g k' where p: "placeRooms ?rs 0 ?G 2 = Inr (rooms, g, k')"
    and sep: "\<forall>i < length rooms. \<forall>j < length rooms.
              (roomsOverlap (rooms ! i) (rooms ! j) \<longleftrightarrow>
                 (\<exists>cx cy. inExpanded (rooms ! i) cx cy \<and> inExpanded (rooms ! j) cx cy)) \<and>
              (i \<noteq> j \<longrightarrow> \<not> roomsOverlap (rooms ! i) (rooms ! j) \<and>
                 (\<forall>cx cy dx dy. inRoom (rooms ! i) cx cy \<and> inRoom (rooms ! j) dx dy \<longrightarrow>
                    2 \<le> \<bar>cx - dx\<bar> \<or> 2 \<le> \<bar>cy - dy\<bar>))"
    and ring: "\<forall>i < length rooms. \<forall>cx cy dx dy.
              inRoom (rooms ! i) dx dy \<and> \<bar>cx - dx\<bar> \<le> 1 \<and> \<bar>cy - dy\<bar> \<le> 1 \<and>
              \<not> inRoom (rooms ! i) cx cy \<longrightarrow>
              (\<forall>r \<in> set rooms. \<not> inRoom r cx cy) \<and> getTile g cx cy = getTile ?G cx cy"
    by (elim exE conjE) (rule that)
  from placeRooms_two p have r: "rooms = ?rooms" by auto
  have l: "0 < length rooms" "1 < length rooms" by (simp_all add: r)
  note s01 = sep[THEN spec, of 0, THEN mp, OF l(1), THEN spec, of 1, THEN mp, OF l(2)]
  have ne: "(0 :: nat) \<noteq> 1" by simp
  from s01[THEN conjunct2, THEN mp, OF ne]
  have a: "\<not> roomsOverlap (rooms ! 0) (rooms ! 1)" by (rule conjunct1)
  from s01[THEN conjunct1] a
  have b: "\<not> (\<exists>cx cy. inExpanded (rooms ! 0) cx cy \<and> inExpanded (rooms ! 1) cx cy)"
    by blast
  have "inRoom (rooms ! 0) 5 2 \<and> \<bar>6 - 5\<bar> \<le> (1 :: int) \<and> \<bar>2 - 2\<bar> \<le> (1 :: int) \<and>
        \<not> inRoom (rooms ! 0) 6 2"
    by (simp add: r inRoom_def)
  with ring[THEN spec, of 0, THEN mp, OF l(1), THEN spec, of 6, THEN spec, of 2,
      THEN spec, of 5, THEN spec, of 2]
  have "getTile g 6 2 = getTile ?G 6 2" by blast
  moreover have "inBounds 6 2" by (simp add: inBounds_def consts_defs)
  ultimately have c: "getTile g 6 2 = Some WALL" by (simp add: getTile_createGrid)
  from p r a b c unitDraws_two wfGrid_createGrid[of WALL] show ?thesis by blast
qed

section \<open>The empty dungeon\<close>

lemma placeRooms_zero: "placeRooms rs k grid 0 = Inr ([], grid, k)"
  by (simp add: placeRooms_def placeRooms_loop_unfold[of rs 0 grid "[]" 0 k])

lemma connect_empty: "connectRoomsWithCorridors rs k grid [] = Some (Inr (grid, k))"
  by (simp add: connectRoomsWithCorridors_def connect_trace_def)

text \<open>
  Claim C8. \<open>generateDungeon(0)\<close> returns the empty list of rooms and the grid that
  \<open>createGrid(WIDTH, HEIGHT, WALL)\<close> made, in which every cell is WALL; no draw is
  made. \<open>placeRooms\<close> with count 0 returns the empty list and leaves its grid as it is,
  and the connector on the empty list returns at once and leaves its grid as it is.
\<close>

theorem generateDungeon_zero:
  "generateDungeon rs k 0
     = Some (Inr (\<lparr>d_grid = createGrid WIDTH HEIGHT WALL, d_rooms = []\<rparr>, k)) \<and>
   list_all (list_all (\<lambda>t. t = WALL)) (createGrid WIDTH HEIGHT WALL) \<and>
   (\<forall>cx cy. getTile (createGrid WIDTH HEIGHT WALL) cx cy = (if inBounds cx cy then Some WALL else None)) \<and>
   placeRooms rs k grid 0 = Inr ([], grid, k) \<and>
   connectRoomsWithCorridors rs k grid [] = Some (Inr (grid, k))"
proof -
  have "generateDungeon rs k 0
     = Some (Inr (\<lparr>d_grid = createGrid WIDTH HEIGHT WALL, d_rooms = []\<rparr>, k))"
    by (simp add: generateDungeon_def placeRooms_zero connect_empty)
  moreover have "list_all (list_all (\<lambda>t. t = WALL)) (createGrid WIDTH HEIGHT WALL)"
    by (simp add: createGrid_def list_all_iff)
  ultimately show ?thesis
    by (simp add: getTile_createGrid placeRooms_zero connect_empty)
qed

theorem generateDungeon_zero_witness:
  "generateDungeon (\<lambda>_. 0) 0 0
     = Some (Inr (\<lparr>d_grid = createGrid WIDTH HEIGHT WALL, d_rooms = []\<rparr>, 0)) \<and>
   list_all (list_all (\<lambda>t. t = WALL)) (createGrid WIDTH HEIGHT WALL) \<and>
   (\<forall>cx cy. getTile (createGrid WIDTH HEIGHT WALL) cx cy = (if inBounds cx cy then Some WALL else None)) \<and>
   placeRooms (\<lambda>_. 0) 0 [[FLOOR]] 0 = Inr ([], [[FLOOR]], 0) \<and>
   connectRoomsWithCorridors (\<lambda>_. 0) 0 [[FLOOR]] [] = Some (Inr ([[FLOOR]], 0))"
  using generateDungeon_zero[of "\<lambda>_. 0" 0 "[[FLOOR]]"] by simp

section \<open>Centers whose distances are exact\<close>

text \<open>
  A center as a pair of integers, the Manhattan distance of two such centers, and the
  point that holds such a center.
\<close>

definition manhattan :: "int \<times> int \<Rightarrow> int \<times> int \<Rightarrow> int" where
  "manhattan p q = \<bar>fst p - fst q\<bar> + \<bar>snd p - snd q\<bar>"

definition toPoint :: "int \<times> int \<Rightarrow> Point" where
  "toPoint c = \<lparr>p_x = Some (fst c), p_y = Some (snd c)\<rparr>"

text \<open>
  \<open>exactCenters centers cs\<close>: the centers of the connector are the finite points \<open>cs\<close>,
  with coordinates of magnitude at most \<open>2^51\<close>. Then every difference of two
  coordinates and every distance the search computes is an integer of magnitude at
  most \<open>2^53\<close>, which no operation rounds.
\<close>

definition exactCenters :: "Point list \<Rightarrow> (int \<times> int) list \<Rightarrow> bool" where
  "exactCenters centers cs =
     (centers = map toPoint cs \<and> (\<forall>c \<in> set cs. \<bar>fst c\<bar> \<le> 2 ^ 51 \<and> \<bar>snd c\<bar> \<le> 2 ^ 51))"

lemma exactCenters_length: "exactCenters centers cs \<Longrightarrow> length centers = length cs"
  by (simp add: exactCenters_def)

lemma exactCenters_bound:
  assumes "exactCenters centers cs" and "a < length cs"
  shows "\<bar>fst (cs ! a)\<bar> \<le> 2 ^ 51" and "\<bar>snd (cs ! a)\<bar> \<le> 2 ^ 51"
  using assms by (simp_all add: exactCenters_def)

lemma jsAbsDiff_exact:
  assumes "\<bar>u\<bar> \<le> 2 ^ 51" and "\<bar>v\<bar> \<le> 2 ^ 51"
  shows "jsAbsDiff (Some u) (Some v) = Some \<bar>u - v\<bar>"
proof -
  from assms have "\<bar>u - v\<bar> \<le> 2 ^ 53" by simp
  then show ?thesis by (simp add: jsAbsDiff_def jsNum_exact)
qed

lemma jsDist_exact:
  assumes ex: "exactCenters centers cs" and a: "a < length cs" and b: "b < length cs"
  shows "jsDist (centers ! a) (centers ! b) = Some (manhattan (cs ! a) (cs ! b))"
proof -
  note ba = exactCenters_bound[OF ex a] and bb = exactCenters_bound[OF ex b]
  from ex a b have pa: "centers ! a = toPoint (cs ! a)" and pb: "centers ! b = toPoint (cs ! b)"
    by (simp_all add: exactCenters_def)
  from ba bb have "\<bar>manhattan (cs ! a) (cs ! b)\<bar> \<le> 2 ^ 53" by (simp add: manhattan_def)
  then have "jsNum (manhattan (cs ! a) (cs ! b)) = Some (manhattan (cs ! a) (cs ! b))"
    by (rule jsNum_exact)
  then show ?thesis
    by (simp add: jsDist_def pa pb toPoint_def jsAbsDiff_exact[OF ba(1) bb(1)]
        jsAbsDiff_exact[OF ba(2) bb(2)] manhattan_def)
qed

lemma endpoints_exact:
  assumes "exactCenters centers cs" and "a < length cs" and "b < length cs"
  shows "endpoints (centers ! a) (centers ! b)
           = Some (fst (cs ! a), snd (cs ! a), fst (cs ! b), snd (cs ! b))"
  using assms by (simp add: exactCenters_def endpoints_def toPoint_def)

section \<open>The nearest-pair search\<close>

text \<open>
  \<open>nearest cs S best\<close>: the search variables \<open>best\<close> describe the set \<open>S\<close> of the
  pairs looked at so far. Either no pair was looked at and the variables have their
  initial values, or they hold a pair of \<open>S\<close> whose distance is least in \<open>S\<close>.
\<close>

definition nearest :: "(int \<times> int) list \<Rightarrow> (nat \<times> nat) set \<Rightarrow> Best \<Rightarrow> bool" where
  "nearest cs S best =
     ((S = {} \<and> best = \<lparr>bestA = - 1, bestB = - 1, bestDist = None\<rparr>) \<or>
      (\<exists>a b. (a, b) \<in> S \<and>
         best = \<lparr>bestA = int a, bestB = int b,
                 bestDist = Some (manhattan (cs ! a) (cs ! b))\<rparr> \<and>
         (\<forall>(a', b') \<in> S. manhattan (cs ! a) (cs ! b)
                            \<le> manhattan (cs ! a') (cs ! b'))))"

lemma nearest_visit:
  assumes "nearest cs S best"
  shows "nearest cs (insert (a, b) S)
           (if distLess (Some (manhattan (cs ! a) (cs ! b))) (bestDist best)
            then \<lparr>bestA = int a, bestB = int b,
                  bestDist = Some (manhattan (cs ! a) (cs ! b))\<rparr>
            else best)"
proof -
  let ?d = "manhattan (cs ! a) (cs ! b)"
  from assms consider
    (empty) "S = {}" "best = \<lparr>bestA = - 1, bestB = - 1, bestDist = None\<rparr>"
    | (some) a0 b0 where "(a0, b0) \<in> S"
        "best = \<lparr>bestA = int a0, bestB = int b0,
                 bestDist = Some (manhattan (cs ! a0) (cs ! b0))\<rparr>"
        "\<forall>(a', b') \<in> S. manhattan (cs ! a0) (cs ! b0)
                            \<le> manhattan (cs ! a') (cs ! b')"
    unfolding nearest_def by blast
  then show ?thesis
  proof cases
    case empty
    then show ?thesis by (simp add: nearest_def distLess_def)
  next
    case some
    let ?e = "manhattan (cs ! a0) (cs ! b0)"
    show ?thesis
    proof (cases "?d < ?e")
      case True
      with some(3) have "\<forall>(a', b') \<in> insert (a, b) S. ?d \<le> manhattan (cs ! a') (cs ! b')"
        by fastforce
      with True some(2) show ?thesis
        unfolding nearest_def distLess_def by (intro disjI2 exI[of _ a] exI[of _ b]) simp
    next
      case False
      with some(3) have "\<forall>(a', b') \<in> insert (a, b) S. ?e \<le> manhattan (cs ! a') (cs ! b')"
        by fastforce
      with False some(1,2) show ?thesis
        unfolding nearest_def distLess_def by (intro disjI2 exI[of _ a0] exI[of _ b0]) simp
    qed
  qed
qed

text \<open>The pairs that the inner loop for \<open>a\<close> looks at before position \<open>b\<close>.\<close>

definition pairsB :: "nat list \<Rightarrow> nat \<Rightarrow> nat \<Rightarrow> (nat \<times> nat) set" where
  "pairsB conn a b = {(a, b') | b'. b' < b \<and> b' \<notin> set conn}"

lemma pairsB_0: "pairsB conn a 0 = {}"
  by (simp add: pairsB_def)

lemma pairsB_skip: "b \<in> set conn \<Longrightarrow> pairsB conn a (Suc b) = pairsB conn a b"
  by (auto simp: pairsB_def less_Suc_eq)

lemma pairsB_visit: "b \<notin> set conn \<Longrightarrow> pairsB conn a (Suc b) = insert (a, b) (pairsB conn a b)"
  by (auto simp: pairsB_def less_Suc_eq)

lemma scan_b_nearest:
  assumes ex: "exactCenters centers cs"
    and run: "scan_b centers conn a 0 best = Inr best'"
    and init: "nearest cs S best"
  shows "nearest cs (S \<union> pairsB conn a (length centers)) best'"
proof -
  have "nearest cs (S \<union> pairsB conn a (max 0 (length centers))) best'"
  proof (rule scan_b_inv[OF run, where I = "\<lambda>b best. nearest cs (S \<union> pairsB conn a b) best"])
    show "nearest cs (S \<union> pairsB conn a 0) best"
      using init by (simp add: pairsB_0)
  next
    fix b best
    assume "b \<in> set conn" and "nearest cs (S \<union> pairsB conn a b) best"
    then show "nearest cs (S \<union> pairsB conn a (b + 1)) best"
      by (simp add: pairsB_skip)
  next
    fix b best
    assume b: "b < length centers" and a: "a < length centers"
      and nb: "b \<notin> set conn" and n: "nearest cs (S \<union> pairsB conn a b) best"
    from a b have d: "jsDist (centers ! a) (centers ! b) = Some (manhattan (cs ! a) (cs ! b))"
      using jsDist_exact[OF ex] exactCenters_length[OF ex] by simp
    have s: "S \<union> pairsB conn a (b + 1) = insert (a, b) (S \<union> pairsB conn a b)"
      by (simp add: pairsB_visit[OF nb])
    show "nearest cs (S \<union> pairsB conn a (b + 1))
            (if distLess (jsDist (centers ! a) (centers ! b)) (bestDist best)
             then \<lparr>bestA = int a, bestB = int b,
                   bestDist = jsDist (centers ! a) (centers ! b)\<rparr>
             else best)"
      unfolding d s by (rule nearest_visit[OF n])
  qed
  then show ?thesis by simp
qed

lemma scan_b_ok:
  assumes "a < length centers"
  shows "\<exists>best'. scan_b centers conn a b best = Inr best'"
proof (induction "length centers - b" arbitrary: b best)
  case 0
  then show ?case by (simp add: scan_b.simps[of centers conn a b])
next
  case (Suc n)
  then have b: "b < length centers" and n: "n = length centers - (b + 1)" by simp_all
  from assms have l: "lookup centers (int a) = Inr (centers ! a)" by (simp add: lookup_def)
  from Suc.hyps(1)[OF n] b l show ?case
    by (simp add: scan_b.simps[of centers conn a b] Let_def)
qed

text \<open>The candidate pairs: \<open>a\<close> from a list of connected indices, \<open>b\<close> an unconnected index.\<close>

definition pairsA :: "nat \<Rightarrow> nat list \<Rightarrow> nat list \<Rightarrow> (nat \<times> nat) set" where
  "pairsA n conn as = {(a, b) | a b. a \<in> set as \<and> b < n \<and> b \<notin> set conn}"

lemma pairsA_Cons: "pairsA n conn (a # as) = pairsB conn a n \<union> pairsA n conn as"
  by (auto simp: pairsA_def pairsB_def)

lemma scan_a_nearest:
  assumes "exactCenters centers cs"
    and "scan_a centers conn as best = Inr best'"
    and "nearest cs S best"
  shows "nearest cs (S \<union> pairsA (length centers) conn as) best'"
  using assms(2,3)
proof (induction as arbitrary: best S)
  case Nil
  then show ?case by (simp add: pairsA_def)
next
  case (Cons a as)
  from Cons.prems(1) obtain b1 where b1: "scan_b centers conn a 0 best = Inr b1"
    and r: "scan_a centers conn as b1 = Inr best'"
    by (cases "scan_b centers conn a 0 best") simp_all
  from Cons.IH[OF r scan_b_nearest[OF assms(1) b1 Cons.prems(2)]]
  show ?case by (simp add: pairsA_Cons Un_assoc)
qed

lemma scan_a_ok:
  assumes "\<forall>a \<in> set as. a < length centers"
  shows "\<exists>best'. scan_a centers conn as best = Inr best'"
  using assms
proof (induction as arbitrary: best)
  case Nil
  then show ?case by simp
next
  case (Cons a as)
  then have "a < length centers" by simp
  from scan_b_ok[OF this] obtain b1 where "scan_b centers conn a 0 best = Inr b1" by blast
  with Cons show ?case by simp
qed

lemma findBest_nearest:
  assumes "exactCenters centers cs" and "findBest centers conn = Inr best"
  shows "nearest cs (pairsA (length cs) conn conn) best"
proof -
  have "nearest cs {} \<lparr>bestA = - 1, bestB = - 1, bestDist = None\<rparr>"
    by (simp add: nearest_def)
  from scan_a_nearest[OF assms(1) assms(2)[unfolded findBest_def] this]
    exactCenters_length[OF assms(1)]
  show ?thesis by simp
qed

lemma findBest_ok:
  "\<forall>a \<in> set conn. a < length centers \<Longrightarrow> \<exists>best. findBest centers conn = Inr best"
  unfolding findBest_def by (rule scan_a_ok)

section \<open>The connector's loop, one iteration at a time\<close>

text \<open>
  \<open>primStep cs conn a b\<close>: the pair \<open>(a, b)\<close> is a choice the search may make for
  the connected set \<open>conn\<close>: \<open>a\<close> is connected, \<open>b\<close> is an index that is not, and no
  such pair has a smaller distance between its centers.
\<close>

definition primStep :: "(int \<times> int) list \<Rightarrow> nat list \<Rightarrow> nat \<Rightarrow> nat \<Rightarrow> bool" where
  "primStep cs conn a b =
     (a \<in> set conn \<and> b < length cs \<and> b \<notin> set conn \<and>
      (\<forall>a' \<in> set conn. \<forall>b' < length cs. b' \<notin> set conn \<longrightarrow>
         manhattan (cs ! a) (cs ! b) \<le> manhattan (cs ! a') (cs ! b')))"

lemma nearest_found:
  assumes n: "nearest cs (pairsA (length cs) conn conn) best"
    and f: "bestA best \<noteq> - 1 \<or> bestB best \<noteq> - 1 \<or> pairsA (length cs) conn conn \<noteq> {}"
  shows "\<exists>a b. bestA best = int a \<and> bestB best = int b \<and> primStep cs conn a b"
proof -
  from n f obtain a b where ab: "(a, b) \<in> pairsA (length cs) conn conn"
    and best: "best = \<lparr>bestA = int a, bestB = int b,
                 bestDist = Some (manhattan (cs ! a) (cs ! b))\<rparr>"
    and le: "\<forall>(a', b') \<in> pairsA (length cs) conn conn.
               manhattan (cs ! a) (cs ! b) \<le> manhattan (cs ! a') (cs ! b')"
    unfolding nearest_def by auto
  from ab le have "primStep cs conn a b"
    by (auto simp: primStep_def pairsA_def)
  with best show ?thesis by auto
qed

text \<open>One iteration that has found the pair \<open>(a, b)\<close>.\<close>

lemma connect_loop_found:
  assumes ex: "exactCenters centers cs"
    and lt: "length conn < length centers"
    and fb: "findBest centers conn = Inr best"
    and a: "bestA best = int a" and b: "bestB best = int b"
    and an: "a < length cs" and ps: "primStep cs conn a b"
  shows "connect_loop rs centers grid conn k carved =
           (case carveCorridor grid (fst (cs ! a)) (snd (cs ! a)) (fst (cs ! b)) (snd (cs ! b)) (rs k) of
              None \<Rightarrow> None
            | Some (Inl e) \<Rightarrow> Some (Inl e)
            | Some (Inr g) \<Rightarrow>
                connect_loop rs centers g (conn @ [b]) (Suc k) (carved @ [(a, b)]))"
proof -
  note len = exactCenters_length[OF ex]
  from ps have bn: "b < length cs" and fresh: "b \<notin> set conn" by (simp_all add: primStep_def)
  from an a len have ca: "lookup centers (bestA best) = Inr (centers ! a)"
    by (simp add: lookup_def)
  from bn b len have cb: "lookup centers (bestB best) = Inr (centers ! b)"
    by (simp add: lookup_def)
  have found: "bestA best \<noteq> - 1 \<and> bestB best \<noteq> - 1" using a b by simp
  from lt fb found ca cb endpoints_exact[OF ex an bn] fresh a b show ?thesis
    by (simp add: connect_loop.simps[of rs centers grid conn k carved] setAdd_def case_prod_beta
        cong: option.case_cong sum.case_cong)
qed

text \<open>
  An invariant rule for the \<open>while\<close> loop of the connector: a property of the loop
  state that holds at the start and is kept by an iteration that carves holds at the
  end. If the loop was left through \<open>break\<close>, the set was not full and there was no
  candidate pair; otherwise the set has reached the number of centers.
\<close>

lemma connect_loop_inv:
  assumes ex: "exactCenters centers cs"
    and run: "connect_loop rs centers grid conn k carved = Some (Inr (g', conn', k', carved', stopped))"
    and init: "I grid conn k carved"
    and step: "\<And>grid conn k carved a b g.
        I grid conn k carved \<Longrightarrow> length conn < length cs \<Longrightarrow>
        primStep cs conn a b \<Longrightarrow> a < length cs \<Longrightarrow>
        carveCorridor grid (fst (cs ! a)) (snd (cs ! a)) (fst (cs ! b)) (snd (cs ! b)) (rs k)
          = Some (Inr g) \<Longrightarrow>
        I g (conn @ [b]) (Suc k) (carved @ [(a, b)])"
  shows "I g' conn' k' carved' \<and>
         (if stopped then length conn' < length cs \<and> pairsA (length cs) conn' conn' = {}
          else length cs \<le> length conn')"
  using run init
proof (induction "length centers - length conn" arbitrary: grid conn k carved)
  case 0
  then have "\<not> length conn < length centers" by simp
  with "0.prems" exactCenters_length[OF ex] show ?case
    by (simp add: connect_loop.simps[of rs centers grid conn k carved])
next
  case (Suc n)
  note len = exactCenters_length[OF ex]
  from Suc have lt: "length conn < length centers" by simp
  from Suc.prems(1) lt obtain best where fb: "findBest centers conn = Inr best"
    by (cases "findBest centers conn") (simp_all add: connect_loop.simps[of rs centers grid conn k carved])
  note nr = findBest_nearest[OF ex fb]
  show ?case
  proof (cases "bestA best \<noteq> - 1 \<and> bestB best \<noteq> - 1")
    case False
    with Suc.prems(1) lt fb
    have res: "g' = grid" "conn' = conn" "k' = k" "carved' = carved" "stopped"
      by (simp_all add: connect_loop.simps[of rs centers grid conn k carved])
    have "pairsA (length cs) conn conn = {}"
    proof (rule ccontr)
      assume "pairsA (length cs) conn conn \<noteq> {}"
      with nearest_found[OF nr] obtain a b where "bestA best = int a" "bestB best = int b"
        by blast
      with False show False by simp
    qed
    with res lt len Suc.prems(2) show ?thesis by simp
  next
    case True
    with nearest_found[OF nr] obtain a b where a: "bestA best = int a" and b: "bestB best = int b"
      and ps: "primStep cs conn a b" by blast
    from Suc.prems(1) lt fb True obtain ca where ca: "lookup centers (bestA best) = Inr ca"
      by (cases "lookup centers (bestA best)")
        (simp_all add: connect_loop.simps[of rs centers grid conn k carved])
    then have an: "a < length cs"
      using a len by (auto simp: lookup_def split: if_splits)
    note eq = connect_loop_found[OF ex lt fb a b an ps, of rs grid k carved]
    from Suc.prems(1)[unfolded eq] obtain g
      where g: "carveCorridor grid (fst (cs ! a)) (snd (cs ! a)) (fst (cs ! b)) (snd (cs ! b)) (rs k)
                  = Some (Inr g)"
        and r: "connect_loop rs centers g (conn @ [b]) (Suc k) (carved @ [(a, b)])
                  = Some (Inr (g', conn', k', carved', stopped))"
      by (auto split: option.splits sum.splits)
    have n: "n = length centers - length (conn @ [b])" using Suc.hyps(2) by simp
    from lt len have lt': "length conn < length cs" by simp
    from Suc.hyps(1)[OF n r step[OF Suc.prems(2) lt' ps an g]] show ?thesis .
  qed
qed

text \<open>
  On a well-formed grid, with valid indices in the set and centers whose distances are
  exact, the loop returns normally.
\<close>

lemma connect_loop_ok:
  assumes ex: "exactCenters centers cs"
  shows "wfGrid grid \<Longrightarrow> \<forall>v \<in> set conn. v < length centers \<Longrightarrow>
   \<exists>res. connect_loop rs centers grid conn k carved = Some (Inr res)"
proof (induction "length centers - length conn" arbitrary: grid conn k carved)
  case 0
  then have "\<not> length conn < length centers" by simp
  then show ?case
    by (auto simp: connect_loop.simps[of rs centers grid conn k carved])
next
  case (Suc n)
  note len = exactCenters_length[OF ex]
  from Suc have lt: "length conn < length centers" by simp
  from findBest_ok[OF Suc.prems(2)] obtain best where fb: "findBest centers conn = Inr best" ..
  note nr = findBest_nearest[OF ex fb]
  show ?case
  proof (cases "bestA best \<noteq> - 1 \<and> bestB best \<noteq> - 1")
    case False
    with lt fb show ?thesis
      by (auto simp: connect_loop.simps[of rs centers grid conn k carved])
  next
    case True
    with nearest_found[OF nr] obtain a b where a: "bestA best = int a" and b: "bestB best = int b"
      and ps: "primStep cs conn a b" by blast
    from ps Suc.prems(2) len have an: "a < length cs" and bn: "b < length cs"
      by (simp_all add: primStep_def)
    note ba = exactCenters_bound[OF ex an] and bb = exactCenters_bound[OF ex bn]
    have small: "\<And>v :: int. \<bar>v\<bar> \<le> 2 ^ 51 \<Longrightarrow> \<bar>v\<bar> < 2 ^ 53" by simp
    from carveCorridor_ok[OF Suc.prems(1) small[OF ba(1)] small[OF ba(2)] small[OF bb(1)]
        small[OF bb(2)]]
    obtain g
      where g: "carveCorridor grid (fst (cs ! a)) (snd (cs ! a)) (fst (cs ! b)) (snd (cs ! b)) (rs k)
                  = Some (Inr g)" by blast
    have n: "n = length centers - length (conn @ [b])" using Suc.hyps(2) by simp
    have v: "\<forall>v \<in> set (conn @ [b]). v < length centers" using Suc.prems(2) bn len by simp
    from Suc.hyps(1)[OF n wfGrid_carveCorridor[OF Suc.prems(1) g] v, of "Suc k" "carved @ [(a, b)]"]
    show ?thesis
      by (simp add: connect_loop_found[OF ex lt fb a b an ps, of rs grid k carved] g)
  qed
qed

section \<open>The corridors form a spanning tree\<close>

text \<open>
  A room whose four fields have magnitude at most \<open>2^50\<close>, and its center
  \<open>(x + floor(w / 2), y + floor(h / 2))\<close> as a pair of integers. For such rooms the
  connector computes these centers, and their distances are exact.
\<close>

definition roomBounded :: "Room \<Rightarrow> bool" where
  "roomBounded r =
     (\<bar>r_x r\<bar> \<le> 2 ^ 50 \<and> \<bar>r_y r\<bar> \<le> 2 ^ 50 \<and> \<bar>r_w r\<bar> \<le> 2 ^ 50 \<and> \<bar>r_h r\<bar> \<le> 2 ^ 50)"

definition exactCenter :: "Room \<Rightarrow> int \<times> int" where
  "exactCenter r = (r_x r + r_w r div 2, r_y r + r_h r div 2)"

lemma center_bounded:
  assumes "roomBounded r"
  shows "center r = toPoint (exactCenter r)"
    and "\<bar>fst (exactCenter r)\<bar> \<le> 2 ^ 51" and "\<bar>snd (exactCenter r)\<bar> \<le> 2 ^ 51"
proof -
  from assms have "\<bar>2 * r_x r + r_w r\<bar> \<le> 2 ^ 53" "\<bar>2 * r_y r + r_h r\<bar> \<le> 2 ^ 53"
    by (auto simp: roomBounded_def)
  from center_exact[OF this] show "center r = toPoint (exactCenter r)"
    by (simp add: toPoint_def exactCenter_def)
  from assms show "\<bar>fst (exactCenter r)\<bar> \<le> 2 ^ 51" "\<bar>snd (exactCenter r)\<bar> \<le> 2 ^ 51"
    by (auto simp: roomBounded_def exactCenter_def)
qed

lemma exactCenters_rooms:
  assumes "\<forall>r \<in> set rooms. roomBounded r"
  shows "exactCenters (map center rooms) (map exactCenter rooms)"
  using assms center_bounded by (simp add: exactCenters_def)

text \<open>The connected set before corridor number \<open>i\<close> is carved: index 0 and the first \<open>i\<close> targets.\<close>

definition connAt :: "(nat \<times> nat) list \<Rightarrow> nat \<Rightarrow> nat list" where
  "connAt carved i = 0 # map snd (take i carved)"

text \<open>Every corridor of the list was a choice of the search for the set connected before it.\<close>

definition primTrace :: "(int \<times> int) list \<Rightarrow> (nat \<times> nat) list \<Rightarrow> bool" where
  "primTrace cs carved =
     (\<forall>i < length carved.
        primStep cs (connAt carved i) (fst (carved ! i)) (snd (carved ! i)))"

text \<open>Two rooms are linked when a corridor was carved between them, in either direction.\<close>

definition linked :: "(nat \<times> nat) list \<Rightarrow> (nat \<times> nat) set" where
  "linked carved = {(a, b). (a, b) \<in> set carved \<or> (b, a) \<in> set carved}"

text \<open>
  Carving the corridors of a list in order, between the centers of their two rooms,
  with one draw each from position \<open>k\<close> on.
\<close>

fun carveEdges ::
  "RandomSource \<Rightarrow> nat \<Rightarrow> (int \<times> int) list \<Rightarrow> Grid \<Rightarrow> (nat \<times> nat) list \<Rightarrow> (error + Grid) option"
where
  "carveEdges rs k cs grid [] = Some (Inr grid)"
| "carveEdges rs k cs grid ((a, b) # es) =
     (case carveCorridor grid (fst (cs ! a)) (snd (cs ! a)) (fst (cs ! b)) (snd (cs ! b)) (rs k) of
        None \<Rightarrow> None
      | Some (Inl e) \<Rightarrow> Some (Inl e)
      | Some (Inr g) \<Rightarrow> carveEdges rs (Suc k) cs g es)"

lemma carveEdges_snoc:
  "carveEdges rs k cs grid (es @ [(a, b)]) =
     (case carveEdges rs k cs grid es of
        None \<Rightarrow> None
      | Some (Inl e) \<Rightarrow> Some (Inl e)
      | Some (Inr g) \<Rightarrow>
          carveCorridor g (fst (cs ! a)) (snd (cs ! a)) (fst (cs ! b)) (snd (cs ! b))
            (rs (k + length es)))"
proof (induction es arbitrary: k grid)
  case Nil
  show ?case by (simp split: option.splits sum.splits)
next
  case (Cons e es)
  obtain a' b' where e: "e = (a', b')" by (cases e)
  show ?case by (simp add: e Cons.IH split: option.splits sum.splits)
qed

lemma primTrace_snoc:
  assumes "primTrace cs carved" and "primStep cs (connAt carved (length carved)) a b"
  shows "primTrace cs (carved @ [(a, b)])"
  unfolding primTrace_def
proof (intro allI impI)
  fix i assume "i < length (carved @ [(a, b)])"
  then consider "i < length carved" | "i = length carved" by (simp add: less_Suc_eq) arith
  then show "primStep cs (connAt (carved @ [(a, b)]) i)
               (fst ((carved @ [(a, b)]) ! i)) (snd ((carved @ [(a, b)]) ! i))"
  proof cases
    case 1
    with assms(1) show ?thesis by (simp add: primTrace_def connAt_def nth_append)
  next
    case 2
    with assms(2) show ?thesis by (simp add: connAt_def)
  qed
qed

lemma linked_snoc_mono: "(linked carved)\<^sup>* \<subseteq> (linked (carved @ [e]))\<^sup>*"
  by (rule rtrancl_mono) (auto simp: linked_def)

lemma linked_snoc_new:
  assumes "(0, a) \<in> (linked carved)\<^sup>*"
  shows "(0, b) \<in> (linked (carved @ [(a, b)]))\<^sup>*"
proof -
  from assms linked_snoc_mono have "(0, a) \<in> (linked (carved @ [(a, b)]))\<^sup>*" by blast
  moreover have "(a, b) \<in> linked (carved @ [(a, b)])" by (simp add: linked_def)
  ultimately show ?thesis by (rule rtrancl_into_rtrancl)
qed

text \<open>A set of fewer indices than there are centers leaves an index out.\<close>

lemma index_left:
  assumes "length conn < n"
  shows "\<exists>b < n. b \<notin> set conn"
proof (rule ccontr)
  assume "\<not> (\<exists>b < n. b \<notin> set conn)"
  then have "{..<n} \<subseteq> set conn" by auto
  then have "card {..<n} \<le> card (set conn)" by (rule card_mono[OF finite_set])
  also have "\<dots> \<le> length conn" by (rule card_length)
  finally show False using assms by simp
qed

lemma distinct_bounded_length:
  assumes "distinct conn" and "\<forall>v \<in> set conn. v < n"
  shows "length conn \<le> n"
proof -
  from assms(2) have "set conn \<subseteq> {..<n}" by auto
  then have "card (set conn) \<le> card {..<n}" by (rule card_mono[OF finite_lessThan])
  with assms(1) show ?thesis by (simp add: distinct_card)
qed

lemma distinct_full:
  assumes "distinct conn" and "\<forall>v \<in> set conn. v < n" and "n \<le> length conn"
  shows "set conn = {..<n}"
proof (rule card_subset_eq)
  show "finite {..<n}" by simp
  from assms(2) show "set conn \<subseteq> {..<n}" by auto
  from distinct_bounded_length[OF assms(1,2)] assms(3) have "length conn = n" by simp
  with assms(1) show "card (set conn) = card {..<n}" by (simp add: distinct_card)
qed

text \<open>What the loop keeps about the set and the list of corridors.\<close>

definition treeInv ::
  "RandomSource \<Rightarrow> nat \<Rightarrow> (int \<times> int) list \<Rightarrow> Grid \<Rightarrow> Grid \<Rightarrow> nat list \<Rightarrow> nat \<Rightarrow> (nat \<times> nat) list \<Rightarrow> bool"
where
  "treeInv rs k0 cs grid0 grid conn k carved =
     (conn = connAt carved (length carved) \<and> distinct conn \<and>
      (\<forall>v \<in> set conn. v < length cs) \<and>
      primTrace cs carved \<and> k = k0 + length carved \<and>
      (\<forall>v \<in> set conn. (0, v) \<in> (linked carved)\<^sup>*) \<and>
      wfGrid grid \<and> carveEdges rs k0 cs grid0 carved = Some (Inr grid))"

lemma treeInv_init:
  "wfGrid grid \<Longrightarrow> 0 < length cs \<Longrightarrow> treeInv rs k cs grid grid [0] k []"
  by (simp add: treeInv_def connAt_def primTrace_def)

lemma treeInv_step:
  assumes inv: "treeInv rs k0 cs grid0 grid conn k carved"
    and ps: "primStep cs conn a b"
    and g: "carveCorridor grid (fst (cs ! a)) (snd (cs ! a)) (fst (cs ! b)) (snd (cs ! b)) (rs k)
              = Some (Inr g)"
  shows "treeInv rs k0 cs grid0 g (conn @ [b]) (Suc k) (carved @ [(a, b)])"
proof -
  from inv have c: "conn = connAt carved (length carved)" and d: "distinct conn"
    and v: "\<forall>v \<in> set conn. v < length cs" and pt: "primTrace cs carved"
    and k: "k = k0 + length carved" and l: "\<forall>v \<in> set conn. (0, v) \<in> (linked carved)\<^sup>*"
    and wf: "wfGrid grid" and ce: "carveEdges rs k0 cs grid0 carved = Some (Inr grid)"
    unfolding treeInv_def by blast+
  from ps have a: "a \<in> set conn" and bn: "b < length cs" and fresh: "b \<notin> set conn"
    by (simp_all add: primStep_def)
  have 1: "conn @ [b] = connAt (carved @ [(a, b)]) (length (carved @ [(a, b)]))"
    using c by (simp add: connAt_def)
  have 2: "distinct (conn @ [b])" using d fresh by simp
  have 3: "\<forall>v \<in> set (conn @ [b]). v < length cs" using v bn by simp
  have 4: "primTrace cs (carved @ [(a, b)])"
    using primTrace_snoc[OF pt] ps c by simp
  have 5: "Suc k = k0 + length (carved @ [(a, b)])" using k by simp
  have 6: "\<forall>v \<in> set (conn @ [b]). (0, v) \<in> (linked (carved @ [(a, b)]))\<^sup>*"
  proof
    fix v assume "v \<in> set (conn @ [b])"
    then consider "v \<in> set conn" | "v = b" by auto
    then show "(0, v) \<in> (linked (carved @ [(a, b)]))\<^sup>*"
    proof cases
      case 1
      with l linked_snoc_mono[of carved "(a, b)"] show ?thesis by blast
    next
      case 2
      with l a linked_snoc_new[of a carved b] show ?thesis by blast
    qed
  qed
  have 7: "wfGrid g" by (rule wfGrid_carveCorridor[OF wf g])
  have 8: "carveEdges rs k0 cs grid0 (carved @ [(a, b)]) = Some (Inr g)"
    using ce g k by (simp add: carveEdges_snoc)
  from 1 2 3 4 5 6 7 8 show ?thesis unfolding treeInv_def by blast
qed

lemma connect_loop_tree:
  assumes ex: "exactCenters centers cs" and wf: "wfGrid grid" and ne: "0 < length cs"
  shows "\<exists>g carved.
           connect_loop rs centers grid [0] k [] =
             Some (Inr (g, connAt carved (length carved), k + length carved, carved, False)) \<and>
           Suc (length carved) = length cs \<and>
           carveEdges rs k cs grid carved = Some (Inr g) \<and> wfGrid g \<and>
           primTrace cs carved \<and>
           distinct (connAt carved (length carved)) \<and>
           set (connAt carved (length carved)) = {..<length cs} \<and>
           (\<forall>v < length cs. (0, v) \<in> (linked carved)\<^sup>*)"
proof -
  note len = exactCenters_length[OF ex]
  from ne len have "\<forall>v \<in> set [0 :: nat]. v < length centers" by simp
  from connect_loop_ok[OF ex wf this] obtain res
    where "connect_loop rs centers grid [0] k [] = Some (Inr res)" by blast
  then obtain g conn k' carved stopped
    where run: "connect_loop rs centers grid [0] k [] = Some (Inr (g, conn, k', carved, stopped))"
    by (cases res) auto
  have fin: "treeInv rs k cs grid g conn k' carved \<and>
         (if stopped then length conn < length cs \<and> pairsA (length cs) conn conn = {}
          else length cs \<le> length conn)"
  proof (rule connect_loop_inv[OF ex run, where I = "treeInv rs k cs grid"])
    show "treeInv rs k cs grid grid [0] k []" by (rule treeInv_init[OF wf ne])
  next
    fix grid' conn k' carved a b g
    assume "treeInv rs k cs grid grid' conn k' carved" and "primStep cs conn a b"
      and "carveCorridor grid' (fst (cs ! a)) (snd (cs ! a)) (fst (cs ! b)) (snd (cs ! b)) (rs k')
             = Some (Inr g)"
    then show "treeInv rs k cs grid g (conn @ [b]) (Suc k') (carved @ [(a, b)])"
      by (rule treeInv_step)
  qed
  then have inv: "treeInv rs k cs grid g conn k' carved" by simp
  from inv have c: "conn = connAt carved (length carved)" and d: "distinct conn"
    and v: "\<forall>v \<in> set conn. v < length cs" and pt: "primTrace cs carved"
    and k': "k' = k + length carved" and l: "\<forall>v \<in> set conn. (0, v) \<in> (linked carved)\<^sup>*"
    and wfg: "wfGrid g" and ce: "carveEdges rs k cs grid carved = Some (Inr g)"
    unfolding treeInv_def by blast+
  have ns: "\<not> stopped"
  proof
    assume s: stopped
    with fin have lt: "length conn < length cs"
      and e: "pairsA (length cs) conn conn = {}" by simp_all
    from index_left[OF lt] obtain b where "b < length cs" "b \<notin> set conn" by blast
    moreover from c have "0 \<in> set conn" by (simp add: connAt_def)
    ultimately have "(0, b) \<in> pairsA (length cs) conn conn" by (simp add: pairsA_def)
    with e show False by simp
  qed
  with fin have ge: "length cs \<le> length conn" by simp
  from distinct_bounded_length[OF d v] ge have len': "length conn = length cs" by simp
  then have n1: "Suc (length carved) = length cs" using c by (simp add: connAt_def)
  have full: "set conn = {..<length cs}" by (rule distinct_full[OF d v ge])
  with l have lk: "\<forall>v < length cs. (0, v) \<in> (linked carved)\<^sup>*" by simp
  from run ns c k' n1 ce wfg pt d full lk show ?thesis by auto
qed

text \<open>The connector on a non-empty list of bounded rooms.\<close>

lemma connect_tree:
  assumes "wfGrid grid" and "rooms \<noteq> []" and "\<forall>r \<in> set rooms. roomBounded r"
  shows "\<exists>g carved.
           connect_trace rs k grid rooms = Some (Inr (g, k + length carved, carved, False)) \<and>
           connectRoomsWithCorridors rs k grid rooms = Some (Inr (g, k + length carved)) \<and>
           length carved = length rooms - 1 \<and>
           carveEdges rs k (map exactCenter rooms) grid carved = Some (Inr g) \<and> wfGrid g \<and>
           primTrace (map exactCenter rooms) carved \<and>
           distinct (0 # map snd carved) \<and>
           set (0 # map snd carved) = {..<length rooms} \<and>
           (\<forall>v < length rooms. (0, v) \<in> (linked carved)\<^sup>*)"
proof -
  from assms(2) have ne: "0 < length (map exactCenter rooms)" by simp
  from connect_loop_tree[OF exactCenters_rooms[OF assms(3)] assms(1) ne, of rs k] obtain g carved
    where run: "connect_loop rs (map center rooms) grid [0] k [] =
             Some (Inr (g, connAt carved (length carved), k + length carved, carved, False))"
      and n: "Suc (length carved) = length rooms"
      and ce: "carveEdges rs k (map exactCenter rooms) grid carved = Some (Inr g)"
      and wfg: "wfGrid g"
      and pt: "primTrace (map exactCenter rooms) carved"
      and d: "distinct (connAt carved (length carved))"
      and full: "set (connAt carved (length carved)) = {..<length rooms}"
      and lk: "\<forall>v < length rooms. (0, v) \<in> (linked carved)\<^sup>*"
    by auto
  from run assms(2)
  have t: "connect_trace rs k grid rooms = Some (Inr (g, k + length carved, carved, False))"
    by (simp add: connect_trace_def)
  then have c: "connectRoomsWithCorridors rs k grid rooms = Some (Inr (g, k + length carved))"
    by (simp add: connectRoomsWithCorridors_def)
  from n have n': "length carved = length rooms - 1" by simp
  from d full have "distinct (0 # map snd carved)" "set (0 # map snd carved) = {..<length rooms}"
    by (simp_all add: connAt_def)
  with t c n' ce wfg pt lk show ?thesis by blast
qed

lemma far_centers:
  "center \<lparr>r_x = - (2 ^ 1023), r_y = 0, r_w = 0, r_h = 0\<rparr>
     = \<lparr>p_x = Some (- (2 ^ 1023)), p_y = Some 0\<rparr>"
  "center \<lparr>r_x = 2 ^ 1023, r_y = 0, r_w = 0, r_h = 0\<rparr> = \<lparr>p_x = Some (2 ^ 1023), p_y = Some 0\<rparr>"
  "jsDist \<lparr>p_x = Some (- (2 ^ 1023)), p_y = Some 0\<rparr> \<lparr>p_x = Some (2 ^ 1023), p_y = Some 0\<rparr> = None"
  by (simp_all add: center_def floorHalfSum_def jsDist_def jsAbsDiff_def jsNum_def Let_def
      roundDouble_pow2[of 1024, simplified] roundDouble_exact)

text \<open>
  Claim C3, as stated, fails: the distance of the search is a double. For two rooms
  whose centers are \<open>-2^1023\<close> and \<open>2^1023\<close> in \<open>x\<close>, the difference of the centers is
  \<open>Infinity\<close>, the test \<open>d < bestDist\<close> against the initial \<open>Infinity\<close> is false, no pair
  is found, and the loop is left through \<open>break\<close>: for a list of two rooms the
  connector returns without carving a corridor.
\<close>

theorem connect_break_counterexample:
  "[\<lparr>r_x = - (2 ^ 1023), r_y = 0, r_w = 0, r_h = 0\<rparr>,
    \<lparr>r_x = 2 ^ 1023, r_y = 0, r_w = 0, r_h = 0\<rparr>] \<noteq> [] \<and>
   wfGrid (createGrid WIDTH HEIGHT WALL) \<and>
   connect_trace (\<lambda>_. 0) 0 (createGrid WIDTH HEIGHT WALL)
     [\<lparr>r_x = - (2 ^ 1023), r_y = 0, r_w = 0, r_h = 0\<rparr>,
      \<lparr>r_x = 2 ^ 1023, r_y = 0, r_w = 0, r_h = 0\<rparr>]
     = Some (Inr (createGrid WIDTH HEIGHT WALL, 0, [], True))"
proof -
  let ?a = "\<lparr>p_x = Some (- (2 ^ 1023)), p_y = Some 0\<rparr>"
  let ?b = "\<lparr>p_x = Some (2 ^ 1023), p_y = Some 0\<rparr>"
  have "scan_b [?a, ?b] [0] 0 0 \<lparr>bestA = - 1, bestB = - 1, bestDist = None\<rparr>
          = Inr \<lparr>bestA = - 1, bestB = - 1, bestDist = None\<rparr>"
    by (simp add: scan_b.simps[of _ _ _ 0] scan_b.simps[of _ _ _ "Suc 0"]
        scan_b.simps[of _ _ _ "Suc (Suc 0)"] lookup_def far_centers(3)[simplified] distLess_def
        Let_def)
  then have "findBest [?a, ?b] [0] = Inr \<lparr>bestA = - 1, bestB = - 1, bestDist = None\<rparr>"
    by (simp add: findBest_def)
  then have "connect_loop (\<lambda>_. 0) [?a, ?b] (createGrid WIDTH HEIGHT WALL) [0] 0 []
          = Some (Inr (createGrid WIDTH HEIGHT WALL, [0], 0, [], True))"
    by (simp add: connect_loop.simps[of _ _ _ "[0]"])
  then show ?thesis
    by (simp add: connect_trace_def wfGrid_createGrid far_centers(1,2)[simplified])
qed

text \<open>
  Claim C3, amended. For a non-empty list of \<open>n\<close> rooms whose fields have magnitude at
  most \<open>2^50\<close> and a well-formed grid the connector returns normally, without having
  taken the \<open>break\<close> branch, after exactly \<open>n - 1\<close> calls of \<open>carveCorridor\<close> (one draw
  each): the returned grid is the grid passed in with the corridors of \<open>carved\<close> carved
  in order. Every corridor of \<open>carved\<close> joins an index \<open>a\<close> connected before it with an
  index \<open>b\<close> not connected before it, and no such pair had a smaller Manhattan distance
  between its centers (\<open>primTrace\<close>); its \<open>b\<close> is connected from then on. The targets of
  the corridors are distinct and, with index 0, are all the rooms, and every room is
  linked to room 0 through corridors: \<open>n - 1\<close> edges that connect \<open>n\<close> vertices, a
  spanning tree.
\<close>

theorem connect_spanning_tree:
  assumes "wfGrid grid" and "rooms \<noteq> []" and "\<forall>r \<in> set rooms. roomBounded r"
  shows "\<exists>g carved.
           connect_trace rs k grid rooms = Some (Inr (g, k + length carved, carved, False)) \<and>
           connectRoomsWithCorridors rs k grid rooms = Some (Inr (g, k + length carved)) \<and>
           length carved = length rooms - 1 \<and>
           carveEdges rs k (map exactCenter rooms) grid carved = Some (Inr g) \<and>
           primTrace (map exactCenter rooms) carved \<and>
           distinct (0 # map snd carved) \<and>
           set (0 # map snd carved) = {..<length rooms} \<and>
           (\<forall>v < length rooms. (0, v) \<in> (linked carved)\<^sup>*)"
  using connect_tree[OF assms, of rs k] by blast

theorem connect_spanning_tree_witness:
  "wfGrid (createGrid WIDTH HEIGHT WALL) \<and>
   [\<lparr>r_x = 2, r_y = 2, r_w = 4, r_h = 2\<rparr>, \<lparr>r_x = 30, r_y = 2, r_w = 4, r_h = 2\<rparr>] \<noteq> [] \<and>
   list_all roomBounded
     [\<lparr>r_x = 2, r_y = 2, r_w = 4, r_h = 2\<rparr>, \<lparr>r_x = 30, r_y = 2, r_w = 4, r_h = 2\<rparr>] \<and>
   (\<exists>g carved.
      connect_trace (\<lambda>_. 0) 0 (createGrid WIDTH HEIGHT WALL)
        [\<lparr>r_x = 2, r_y = 2, r_w = 4, r_h = 2\<rparr>, \<lparr>r_x = 30, r_y = 2, r_w = 4, r_h = 2\<rparr>]
        = Some (Inr (g, 0 + length carved, carved, False)) \<and>
      connectRoomsWithCorridors (\<lambda>_. 0) 0 (createGrid WIDTH HEIGHT WALL)
        [\<lparr>r_x = 2, r_y = 2, r_w = 4, r_h = 2\<rparr>, \<lparr>r_x = 30, r_y = 2, r_w = 4, r_h = 2\<rparr>]
        = Some (Inr (g, 0 + length carved)) \<and>
      length carved =
        length [\<lparr>r_x = 2, r_y = 2, r_w = 4, r_h = 2\<rparr>, \<lparr>r_x = 30, r_y = 2, r_w = 4, r_h = 2\<rparr>] - 1 \<and>
      carveEdges (\<lambda>_. 0) 0
        (map exactCenter [\<lparr>r_x = 2, r_y = 2, r_w = 4, r_h = 2\<rparr>, \<lparr>r_x = 30, r_y = 2, r_w = 4, r_h = 2\<rparr>])
        (createGrid WIDTH HEIGHT WALL) carved = Some (Inr g) \<and>
      primTrace
        (map exactCenter [\<lparr>r_x = 2, r_y = 2, r_w = 4, r_h = 2\<rparr>, \<lparr>r_x = 30, r_y = 2, r_w = 4, r_h = 2\<rparr>])
        carved \<and>
      distinct (0 # map snd carved) \<and>
      set (0 # map snd carved) =
        {..<length [\<lparr>r_x = 2, r_y = 2, r_w = 4, r_h = 2\<rparr>, \<lparr>r_x = 30, r_y = 2, r_w = 4, r_h = 2\<rparr>]} \<and>
      (\<forall>v < length [\<lparr>r_x = 2, r_y = 2, r_w = 4, r_h = 2\<rparr>, \<lparr>r_x = 30, r_y = 2, r_w = 4, r_h = 2\<rparr>].
         (0, v) \<in> (linked carved)\<^sup>*))"
proof -
  let ?rooms = "[\<lparr>r_x = 2, r_y = 2, r_w = 4, r_h = 2\<rparr>, \<lparr>r_x = 30, r_y = 2, r_w = 4, r_h = 2\<rparr>]"
  have ne: "?rooms \<noteq> []" by simp
  have rb: "\<forall>r \<in> set ?rooms. roomBounded r" by (simp add: roomBounded_def)
  then have rb': "list_all roomBounded ?rooms" by (simp add: list_all_iff)
  from connect_spanning_tree[OF wfGrid_createGrid[of WALL] ne rb, of "\<lambda>_. 0" 0]
    wfGrid_createGrid[of WALL] ne rb'
  show ?thesis by blast
qed

section \<open>The pipeline only adds FLOOR\<close>

lemma carvedFrom_carveRoom: "carveRoom grid r = Inr g \<Longrightarrow> carvedFrom grid g"
  using carveRoom_cells[of grid r g] by (simp add: carvedFrom_def)

lemma carvedFrom_placeRooms_loop:
  assumes "placeRooms_loop rs roomCount grid rooms attempts k = Inr (g', rooms', attempts', k')"
  shows "carvedFrom grid g'"
proof -
  have "carvedFrom grid g' \<and> \<not> (int (length rooms') < roomCount \<and> attempts' < 200)"
  proof (rule placeRooms_loop_inv[OF assms, where I = "\<lambda>g rooms attempts k. carvedFrom grid g"])
    show "carvedFrom grid grid" by (rule carvedFrom_refl)
  next
    fix g assume "carvedFrom grid g" then show "carvedFrom grid g" .
  next
    fix g g1 k
    assume "carvedFrom grid g" and "carveRoom g (candidateAt rs k) = Inr g1"
    then show "carvedFrom grid g1"
      using carvedFrom_carveRoom carvedFrom_trans by blast
  qed
  then show ?thesis by simp
qed

lemma carvedFrom_placeRooms:
  "placeRooms rs k grid roomCount = Inr (rooms, g, k') \<Longrightarrow> carvedFrom grid g"
  by (auto simp: placeRooms_def split: sum.splits dest: carvedFrom_placeRooms_loop)

lemma carvedFrom_connect_loop:
  assumes "exactCenters centers cs"
    and "connect_loop rs centers grid conn k carved = Some (Inr (g', conn', k', carved', stopped))"
  shows "carvedFrom grid g'"
proof -
  have "carvedFrom grid g' \<and>
         (if stopped then length conn' < length cs \<and> pairsA (length cs) conn' conn' = {}
          else length cs \<le> length conn')"
  proof (rule connect_loop_inv[OF assms, where I = "\<lambda>g conn k carved. carvedFrom grid g"])
    show "carvedFrom grid grid" by (rule carvedFrom_refl)
  next
    fix g g1 a b k
    assume "carvedFrom grid g"
      and "carveCorridor g (fst (cs ! a)) (snd (cs ! a)) (fst (cs ! b)) (snd (cs ! b)) (rs k)
             = Some (Inr g1)"
    then show "carvedFrom grid g1"
      using carvedFrom_carveCorridor carvedFrom_trans by blast
  qed
  then show ?thesis by simp
qed

lemma carvedFrom_connect:
  assumes "\<forall>r \<in> set rooms. roomBounded r"
    and "connectRoomsWithCorridors rs k grid rooms = Some (Inr (g, k'))"
  shows "carvedFrom grid g"
  using assms(2) carvedFrom_connect_loop[OF exactCenters_rooms[OF assms(1)]]
  by (auto simp: connectRoomsWithCorridors_def connect_trace_def Let_def carvedFrom_refl
      split: option.splits sum.splits if_splits)

text \<open>The rooms that placement accepts are small.\<close>

lemma placed_bounded:
  assumes "placed grid0 g rooms"
  shows "\<forall>r \<in> set rooms. roomBounded r"
proof
  fix r assume "r \<in> set rooms"
  with assms have "inMargins r" "sizeInRange r" by (simp_all add: placed_def)
  then show "roomBounded r"
    by (simp add: roomBounded_def inMargins_def sizeInRange_def consts_defs)
qed

lemma connect_ok:
  assumes "wfGrid grid" and "\<forall>r \<in> set rooms. roomBounded r"
  shows "\<exists>g k'. connectRoomsWithCorridors rs k grid rooms = Some (Inr (g, k'))"
proof (cases "rooms = []")
  case True
  then show ?thesis by (simp add: connect_empty)
next
  case False
  from connect_tree[OF assms(1) False assms(2), of rs k] show ?thesis by blast
qed

lemma generateDungeon_result:
  assumes "placeRooms rs k (createGrid WIDTH HEIGHT WALL) roomCount = Inr (rooms, g1, k1)"
    and "connectRoomsWithCorridors rs k1 g1 rooms = Some (Inr (g2, k2))"
  shows "generateDungeon rs k roomCount = Some (Inr (\<lparr>d_grid = g2, d_rooms = rooms\<rparr>, k2))"
  using assms by (simp add: generateDungeon_def)

text \<open>
  Claim C10. On a well-formed grid and with draws from the unit interval,
  \<open>carveLineH\<close> and \<open>carveLineV\<close>, whenever they return, and \<open>placeRooms\<close> and the
  connector after it, which return, return a grid of the same shape in which every cell
  holds what it held before or holds FLOOR (\<open>carvedFrom\<close>): every store writes FLOOR.
  The two runs return for endpoints of magnitude below \<open>2^53\<close>. So a cell that is FLOOR
  in the grid passed to \<open>placeRooms\<close> is FLOOR after placement, and a cell that is FLOOR
  after placement is FLOOR after connection; the grid of \<open>generateDungeon\<close> arises in
  this way from the all-WALL grid.
\<close>

theorem floor_only_grows:
  assumes "unitDraws rs" and "wfGrid grid"
  shows "(\<forall>r. carveLineH grid x1 x2 y = Some r \<longrightarrow>
            (\<exists>g. r = Inr g \<and> carvedFrom grid g \<and>
               (\<forall>cx cy. isFloor grid cx cy \<longrightarrow> isFloor g cx cy))) \<and>
         (\<forall>r. carveLineV grid y1 y2 x = Some r \<longrightarrow>
            (\<exists>g. r = Inr g \<and> carvedFrom grid g \<and>
               (\<forall>cx cy. isFloor grid cx cy \<longrightarrow> isFloor g cx cy))) \<and>
         (\<bar>x1\<bar> < 2 ^ 53 \<and> \<bar>x2\<bar> < 2 ^ 53 \<longrightarrow> (\<exists>g. carveLineH grid x1 x2 y = Some (Inr g))) \<and>
         (\<bar>y1\<bar> < 2 ^ 53 \<and> \<bar>y2\<bar> < 2 ^ 53 \<longrightarrow> (\<exists>g. carveLineV grid y1 y2 x = Some (Inr g))) \<and>
         (\<exists>rooms g1 k1 g2 k2.
            placeRooms rs k grid roomCount = Inr (rooms, g1, k1) \<and>
            connectRoomsWithCorridors rs k1 g1 rooms = Some (Inr (g2, k2)) \<and>
            carvedFrom grid g1 \<and> carvedFrom g1 g2 \<and>
            (\<forall>cx cy. isFloor grid cx cy \<longrightarrow> isFloor g1 cx cy) \<and>
            (\<forall>cx cy. isFloor g1 cx cy \<longrightarrow> isFloor g2 cx cy)) \<and>
         (\<exists>d k'. generateDungeon rs k roomCount = Some (Inr (d, k')) \<and>
            carvedFrom (createGrid WIDTH HEIGHT WALL) (d_grid d))"
proof (intro conjI allI impI)
  fix r assume r: "carveLineH grid x1 x2 y = Some r"
  from carveLineH_result[OF assms(2) r] obtain g where g: "r = Inr g" by blast
  with r have "carveLineH grid x1 x2 y = Some (Inr g)" by simp
  from carvedFrom_carveLineH[OF this] g carvedFrom_floor
  show "\<exists>g. r = Inr g \<and> carvedFrom grid g \<and>
               (\<forall>cx cy. isFloor grid cx cy \<longrightarrow> isFloor g cx cy)" by blast
next
  fix r assume r: "carveLineV grid y1 y2 x = Some r"
  from carveLineV_result[OF assms(2) r] obtain g where g: "r = Inr g" by blast
  with r have "carveLineV grid y1 y2 x = Some (Inr g)" by simp
  from carvedFrom_carveLineV[OF this] g carvedFrom_floor
  show "\<exists>g. r = Inr g \<and> carvedFrom grid g \<and>
               (\<forall>cx cy. isFloor grid cx cy \<longrightarrow> isFloor g cx cy)" by blast
next
  assume "\<bar>x1\<bar> < 2 ^ 53 \<and> \<bar>x2\<bar> < 2 ^ 53"
  then show "\<exists>g. carveLineH grid x1 x2 y = Some (Inr g)"
    using carveLineH_ok[OF assms(2)] by simp
next
  assume "\<bar>y1\<bar> < 2 ^ 53 \<and> \<bar>y2\<bar> < 2 ^ 53"
  then show "\<exists>g. carveLineV grid y1 y2 x = Some (Inr g)"
    using carveLineV_ok[OF assms(2)] by simp
next
  from placeRooms_placed[OF assms] obtain rooms g1 k1
    where p: "placeRooms rs k grid roomCount = Inr (rooms, g1, k1)"
      and pl: "placed grid g1 rooms" by blast
  from pl have "wfGrid g1" by (simp add: placed_def)
  from connect_ok[OF this placed_bounded[OF pl]] obtain g2 k2
    where c: "connectRoomsWithCorridors rs k1 g1 rooms = Some (Inr (g2, k2))" by blast
  from p c carvedFrom_placeRooms[OF p] carvedFrom_connect[OF placed_bounded[OF pl] c]
    carvedFrom_floor
  show "\<exists>rooms g1 k1 g2 k2.
            placeRooms rs k grid roomCount = Inr (rooms, g1, k1) \<and>
            connectRoomsWithCorridors rs k1 g1 rooms = Some (Inr (g2, k2)) \<and>
            carvedFrom grid g1 \<and> carvedFrom g1 g2 \<and>
            (\<forall>cx cy. isFloor grid cx cy \<longrightarrow> isFloor g1 cx cy) \<and>
            (\<forall>cx cy. isFloor g1 cx cy \<longrightarrow> isFloor g2 cx cy)" by blast
next
  from placeRooms_placed[OF assms(1) wfGrid_createGrid] obtain rooms g1 k1
    where p: "placeRooms rs k (createGrid WIDTH HEIGHT WALL) roomCount = Inr (rooms, g1, k1)"
      and pl: "placed (createGrid WIDTH HEIGHT WALL) g1 rooms" by blast
  from pl have "wfGrid g1" by (simp add: placed_def)
  from connect_ok[OF this placed_bounded[OF pl]] obtain g2 k2
    where c: "connectRoomsWithCorridors rs k1 g1 rooms = Some (Inr (g2, k2))" by blast
  from carvedFrom_trans[OF carvedFrom_placeRooms[OF p]
      carvedFrom_connect[OF placed_bounded[OF pl] c]]
    generateDungeon_result[OF p c]
  show "\<exists>d k'. generateDungeon rs k roomCount = Some (Inr (d, k')) \<and>
            carvedFrom (createGrid WIDTH HEIGHT WALL) (d_grid d)" by simp
qed

theorem floor_only_grows_witness:
  "unitDraws (\<lambda>_. 0) \<and> wfGrid (createGrid WIDTH HEIGHT WALL) \<and>
   (\<exists>g. carveLineH (createGrid WIDTH HEIGHT WALL) 3 9 5 = Some (Inr g) \<and>
        carvedFrom (createGrid WIDTH HEIGHT WALL) g \<and>
        (\<forall>cx cy. isFloor (createGrid WIDTH HEIGHT WALL) cx cy \<longrightarrow> isFloor g cx cy)) \<and>
   (\<exists>g. carveLineV (createGrid WIDTH HEIGHT WALL) 3 9 5 = Some (Inr g) \<and>
        carvedFrom (createGrid WIDTH HEIGHT WALL) g \<and>
        (\<forall>cx cy. isFloor (createGrid WIDTH HEIGHT WALL) cx cy \<longrightarrow> isFloor g cx cy)) \<and>
   (\<exists>rooms g1 k1 g2 k2.
      placeRooms (\<lambda>_. 0) 0 (createGrid WIDTH HEIGHT WALL) 10 = Inr (rooms, g1, k1) \<and>
      connectRoomsWithCorridors (\<lambda>_. 0) k1 g1 rooms = Some (Inr (g2, k2)) \<and>
      carvedFrom (createGrid WIDTH HEIGHT WALL) g1 \<and> carvedFrom g1 g2 \<and>
      (\<forall>cx cy. isFloor (createGrid WIDTH HEIGHT WALL) cx cy \<longrightarrow> isFloor g1 cx cy) \<and>
      (\<forall>cx cy. isFloor g1 cx cy \<longrightarrow> isFloor g2 cx cy)) \<and>
   (\<exists>d k'. generateDungeon (\<lambda>_. 0) 0 10 = Some (Inr (d, k')) \<and>
      carvedFrom (createGrid WIDTH HEIGHT WALL) (d_grid d))"
proof -
  let ?G = "createGrid WIDTH HEIGHT WALL"
  note t = floor_only_grows[OF unitDraws_const wfGrid_createGrid[of WALL], of 3 9 5 3 9 5 0 10]
  have b: "\<bar>3 :: int\<bar> < 2 ^ 53 \<and> \<bar>9 :: int\<bar> < 2 ^ 53" by simp
  from t[THEN conjunct2, THEN conjunct2, THEN conjunct1, THEN mp, OF b]
  obtain gh where gh: "carveLineH ?G 3 9 5 = Some (Inr gh)" ..
  from t[THEN conjunct2, THEN conjunct2, THEN conjunct2, THEN conjunct1, THEN mp, OF b]
  obtain gv where gv: "carveLineV ?G 3 9 5 = Some (Inr gv)" ..
  from t[THEN conjunct1, THEN spec, of "Inr gh", THEN mp, OF gh] gh
  have h: "\<exists>g. carveLineH ?G 3 9 5 = Some (Inr g) \<and> carvedFrom ?G g \<and>
        (\<forall>cx cy. isFloor ?G cx cy \<longrightarrow> isFloor g cx cy)"
    by auto
  from t[THEN conjunct2, THEN conjunct1, THEN spec, of "Inr gv", THEN mp, OF gv] gv
  have v: "\<exists>g. carveLineV ?G 3 9 5 = Some (Inr g) \<and> carvedFrom ?G g \<and>
        (\<forall>cx cy. isFloor ?G cx cy \<longrightarrow> isFloor g cx cy)"
    by auto
  note rest = t[THEN conjunct2, THEN conjunct2, THEN conjunct2, THEN conjunct2]
  from h v rest unitDraws_const wfGrid_createGrid[of WALL] show ?thesis by (intro conjI) simp_all
qed

section \<open>Paths of FLOOR cells\<close>

text \<open>A step between two orthogonally adjacent FLOOR cells; cells are pairs \<open>(x, y)\<close>.\<close>

definition floorStep :: "Grid \<Rightarrow> int \<times> int \<Rightarrow> int \<times> int \<Rightarrow> bool" where
  "floorStep grid p q =
     (isFloor grid (fst p) (snd p) \<and> isFloor grid (fst q) (snd q) \<and>
      \<bar>fst p - fst q\<bar> + \<bar>snd p - snd q\<bar> = 1)"

text \<open>A path of orthogonally adjacent FLOOR cells from the FLOOR cell \<open>p\<close> to \<open>q\<close>.\<close>

definition floorPath :: "Grid \<Rightarrow> int \<times> int \<Rightarrow> int \<times> int \<Rightarrow> bool" where
  "floorPath grid p q = (isFloor grid (fst p) (snd p) \<and> rtranclp (floorStep grid) p q)"

lemma floorPath_refl: "isFloor grid cx cy \<Longrightarrow> floorPath grid (cx, cy) (cx, cy)"
  by (simp add: floorPath_def)

lemma floorPath_trans: "floorPath grid p q \<Longrightarrow> floorPath grid q r \<Longrightarrow> floorPath grid p r"
  by (auto simp: floorPath_def)

lemma floorPath_step:
  "floorPath grid p q \<Longrightarrow> floorStep grid q r \<Longrightarrow> floorPath grid p r"
  by (auto simp: floorPath_def)

lemma floorStep_sym: "floorStep grid p q \<Longrightarrow> floorStep grid q p"
  by (auto simp: floorStep_def)

lemma floorPath_end: "floorPath grid p q \<Longrightarrow> isFloor grid (fst q) (snd q)"
  unfolding floorPath_def
proof (elim conjE)
  assume "rtranclp (floorStep grid) p q" and "isFloor grid (fst p) (snd p)"
  then show "isFloor grid (fst q) (snd q)"
    by (induction rule: rtranclp_induct) (simp_all add: floorStep_def)
qed

lemma floorPath_sym:
  assumes "floorPath grid p q"
  shows "floorPath grid q p"
proof -
  from assms have "rtranclp (floorStep grid) p q" by (simp add: floorPath_def)
  then have "rtranclp (floorStep grid) q p"
  proof (induction rule: rtranclp_induct)
    case base
    show ?case by simp
  next
    case (step y z)
    from step.hyps(2) have "floorStep grid z y" by (rule floorStep_sym)
    then show ?case using step.IH by (rule converse_rtranclp_into_rtranclp)
  qed
  with floorPath_end[OF assms] show ?thesis by (simp add: floorPath_def)
qed

lemma floorPath_mono:
  assumes c: "carvedFrom grid g" and p: "floorPath grid p q"
  shows "floorPath g p q"
proof -
  have "\<And>a b. floorStep grid a b \<Longrightarrow> floorStep g a b"
    using carvedFrom_floor[OF c] by (auto simp: floorStep_def)
  then have "floorStep grid \<le> floorStep g" by blast
  from rtranclp_mono[OF this] p carvedFrom_floor[OF c] show ?thesis
    by (auto simp: floorPath_def)
qed

text \<open>A straight run of FLOOR cells is a path, in both directions.\<close>

lemma floorPath_right:
  assumes "x1 \<le> x2" and "\<forall>cx. x1 \<le> cx \<and> cx \<le> x2 \<longrightarrow> isFloor grid cx y"
  shows "floorPath grid (x1, y) (x2, y)"
  using assms
proof (induction "nat (x2 - x1)" arbitrary: x2)
  case 0
  then have "x2 = x1" by simp
  with "0.prems" show ?case by (simp add: floorPath_refl)
next
  case (Suc n)
  then have n: "n = nat ((x2 - 1) - x1)" and le: "x1 \<le> x2 - 1" by simp_all
  from Suc.prems(2) have "\<forall>cx. x1 \<le> cx \<and> cx \<le> x2 - 1 \<longrightarrow> isFloor grid cx y" by simp
  from Suc.hyps(1)[OF n le this] have p: "floorPath grid (x1, y) (x2 - 1, y)" .
  from Suc.prems le have "floorStep grid (x2 - 1, y) (x2, y)"
    by (simp add: floorStep_def)
  with p show ?case by (rule floorPath_step)
qed

lemma floorPath_up:
  assumes "y1 \<le> y2" and "\<forall>cy. y1 \<le> cy \<and> cy \<le> y2 \<longrightarrow> isFloor grid x cy"
  shows "floorPath grid (x, y1) (x, y2)"
  using assms
proof (induction "nat (y2 - y1)" arbitrary: y2)
  case 0
  then have "y2 = y1" by simp
  with "0.prems" show ?case by (simp add: floorPath_refl)
next
  case (Suc n)
  then have n: "n = nat ((y2 - 1) - y1)" and le: "y1 \<le> y2 - 1" by simp_all
  from Suc.prems(2) have "\<forall>cy. y1 \<le> cy \<and> cy \<le> y2 - 1 \<longrightarrow> isFloor grid x cy" by simp
  from Suc.hyps(1)[OF n le this] have p: "floorPath grid (x, y1) (x, y2 - 1)" .
  from Suc.prems le have "floorStep grid (x, y2 - 1) (x, y2)"
    by (simp add: floorStep_def)
  with p show ?case by (rule floorPath_step)
qed

lemma floorPath_runH:
  assumes "\<forall>cx cy. onRunH x1 x2 y cx cy \<longrightarrow> isFloor grid cx cy"
  shows "floorPath grid (x1, y) (x2, y)"
proof (cases "x1 \<le> x2")
  case True
  with assms show ?thesis by (intro floorPath_right) (auto simp: onRunH_def)
next
  case False
  with assms have "floorPath grid (x2, y) (x1, y)"
    by (intro floorPath_right) (auto simp: onRunH_def)
  then show ?thesis by (rule floorPath_sym)
qed

lemma floorPath_runV:
  assumes "\<forall>cx cy. onRunV y1 y2 x cx cy \<longrightarrow> isFloor grid cx cy"
  shows "floorPath grid (x, y1) (x, y2)"
proof (cases "y1 \<le> y2")
  case True
  with assms show ?thesis by (intro floorPath_up) (auto simp: onRunV_def)
next
  case False
  with assms have "floorPath grid (x, y2) (x, y1)"
    by (intro floorPath_up) (auto simp: onRunV_def)
  then show ?thesis by (rule floorPath_sym)
qed

text \<open>An L of FLOOR cells is a path between its two ends, for either order of the runs.\<close>

lemma floorPath_L:
  assumes "\<forall>cx cy. onCorridor fh x1 y1 x2 y2 cx cy \<longrightarrow> isFloor grid cx cy"
  shows "floorPath grid (x1, y1) (x2, y2)"
proof (cases fh)
  case True
  with assms have "floorPath grid (x1, y1) (x2, y1)" "floorPath grid (x2, y1) (x2, y2)"
    by (auto intro!: floorPath_runH floorPath_runV simp: onCorridor_def)
  then show ?thesis by (rule floorPath_trans)
next
  case False
  with assms have "floorPath grid (x1, y1) (x1, y2)" "floorPath grid (x1, y2) (x2, y2)"
    by (auto intro!: floorPath_runH floorPath_runV simp: onCorridor_def)
  then show ?thesis by (rule floorPath_trans)
qed

lemma onCorridor_inBounds:
  "inBounds x1 y1 \<Longrightarrow> inBounds x2 y2 \<Longrightarrow> onCorridor fh x1 y1 x2 y2 cx cy \<Longrightarrow> inBounds cx cy"
  by (auto simp: onCorridor_def onRunH_def onRunV_def inBounds_def split: if_splits)

text \<open>After \<open>carveCorridor\<close> between two cells of the grid, a path joins them.\<close>

lemma carveCorridor_path:
  assumes g: "carveCorridor grid x1 y1 x2 y2 u = Some (Inr g)"
    and b: "inBounds x1 y1" "inBounds x2 y2"
  shows "floorPath g (x1, y1) (x2, y2)"
proof (rule floorPath_L[where fh = "u < 0.5"], intro allI impI)
  fix cx cy assume on: "onCorridor (u < 0.5) x1 y1 x2 y2 cx cy"
  from onCorridor_inBounds[OF b on] on carveCorridor_cells(2)[OF g, of cx cy]
  show "isFloor g cx cy" by (simp add: isFloor_def)
qed

text \<open>Inside a room of FLOOR cells any two cells are joined by a path.\<close>

lemma room_path:
  assumes f: "\<forall>cx cy. inRoom r cx cy \<longrightarrow> isFloor grid cx cy"
    and p: "inRoom r cx cy" and q: "inRoom r dx dy"
  shows "floorPath grid (cx, cy) (dx, dy)"
proof (rule floorPath_L[where fh = True], intro allI impI)
  fix ex ey assume "onCorridor True cx cy dx dy ex ey"
  with p q have "inRoom r ex ey"
    by (auto simp: onCorridor_def onRunH_def onRunV_def inRoom_def)
  with f show "isFloor grid ex ey" by blast
qed

section \<open>Every room is reachable from room 0\<close>

lemma exactCenter_inRoom:
  assumes "sizeInRange r"
  shows "inRoom r (fst (exactCenter r)) (snd (exactCenter r))"
proof -
  from assms have "1 \<le> r_w r" "1 \<le> r_h r" by (simp_all add: sizeInRange_def consts_defs)
  then show ?thesis by (simp add: inRoom_def exactCenter_def) linarith
qed

lemma connect_loop_paths:
  assumes ex: "exactCenters centers cs"
    and run: "connect_loop rs centers grid [0] k [] = Some (Inr (g', conn', k', carved', stopped))"
    and cb: "\<forall>v < length cs. inBounds (fst (cs ! v)) (snd (cs ! v))"
    and c0: "isFloor grid (fst (cs ! 0)) (snd (cs ! 0))"
    and ne: "0 < length cs"
  shows "\<forall>v \<in> set conn'. floorPath g' (cs ! 0) (cs ! v)"
proof -
  let ?c = "\<lambda>v. cs ! v"
  let ?I = "\<lambda>(g :: Grid) (conn :: nat list) (k :: nat) (carved :: (nat \<times> nat) list).
              \<forall>v \<in> set conn. v < length cs \<and> floorPath g (?c 0) (?c v)"
  have "?I g' conn' k' carved' \<and>
         (if stopped then length conn' < length cs \<and> pairsA (length cs) conn' conn' = {}
          else length cs \<le> length conn')"
  proof (rule connect_loop_inv[OF ex run, where I = ?I])
    show "?I grid [0] k []"
      using c0 ne floorPath_refl[of grid "fst (cs ! 0)" "snd (cs ! 0)"] by simp
  next
    fix g conn k carved a b g1
    assume inv: "?I g conn k carved" and ps: "primStep cs conn a b"
      and an: "a < length cs"
      and g1: "carveCorridor g (fst (cs ! a)) (snd (cs ! a)) (fst (cs ! b)) (snd (cs ! b)) (rs k)
                 = Some (Inr g1)"
    from ps have a: "a \<in> set conn" and bn: "b < length cs" by (simp_all add: primStep_def)
    note cf = carvedFrom_carveCorridor[OF g1]
    from cb an bn have "inBounds (fst (cs ! a)) (snd (cs ! a))"
      "inBounds (fst (cs ! b)) (snd (cs ! b))" by simp_all
    from carveCorridor_path[OF g1 this] have ab: "floorPath g1 (?c a) (?c b)" by simp
    from inv a have "floorPath g (?c 0) (?c a)" by blast
    from floorPath_trans[OF floorPath_mono[OF cf this] ab] have b: "floorPath g1 (?c 0) (?c b)" .
    show "?I g1 (conn @ [b]) (Suc k) (carved @ [(a, b)])"
    proof
      fix v assume "v \<in> set (conn @ [b])"
      then consider "v \<in> set conn" | "v = b" by auto
      then show "v < length cs \<and> floorPath g1 (?c 0) (?c v)"
      proof cases
        case 1
        with inv floorPath_mono[OF cf] show ?thesis by blast
      next
        case 2
        with b bn show ?thesis by simp
      qed
    qed
  qed
  then show ?thesis by blast
qed

text \<open>
  The connector on rooms that are placed in a grid: it returns, and in the grid returned
  a path joins every cell of room 0 with every cell of every room.
\<close>

lemma connect_placed:
  assumes pl: "placed grid0 g1 rooms"
  shows "\<exists>g2 k2. connectRoomsWithCorridors rs k1 g1 rooms = Some (Inr (g2, k2)) \<and>
           (\<forall>r \<in> set rooms. \<forall>cx cy. inRoom r cx cy \<longrightarrow> isFloor g2 cx cy) \<and>
           (\<forall>i < length rooms.
              (\<exists>cx cy. inRoom (rooms ! i) cx cy) \<and>
              (\<forall>cx cy dx dy. inRoom (rooms ! 0) cx cy \<and> inRoom (rooms ! i) dx dy \<longrightarrow>
                 floorPath g2 (cx, cy) (dx, dy)))"
proof (cases "rooms = []")
  case True
  then show ?thesis by (simp add: connect_empty)
next
  case False
  let ?cs = "map exactCenter rooms"
  note rb = placed_bounded[OF pl]
  note ex = exactCenters_rooms[OF rb]
  from pl have wf: "wfGrid g1" and m: "\<forall>r \<in> set rooms. inMargins r \<and> sizeInRange r"
    and fl: "\<forall>r \<in> set rooms. \<forall>cx cy. inRoom r cx cy \<longrightarrow> isFloor g1 cx cy"
    by (auto simp: placed_def isFloor_def)
  from False have ne: "0 < length ?cs" by simp
  have cin: "\<forall>v < length rooms. inRoom (rooms ! v) (fst (?cs ! v)) (snd (?cs ! v))"
    using m exactCenter_inRoom by simp
  have cb: "\<forall>v < length ?cs. inBounds (fst (?cs ! v)) (snd (?cs ! v))"
  proof (intro allI impI)
    fix v assume v: "v < length ?cs"
    then have "rooms ! v \<in> set rooms" by simp
    with m have "inMargins (rooms ! v)" by blast
    from inMargins_cells[OF this] cin v
    show "inBounds (fst (?cs ! v)) (snd (?cs ! v))" by simp
  qed
  from cin fl ne have c0: "isFloor g1 (fst (?cs ! 0)) (snd (?cs ! 0))"
    by (metis length_map nth_mem)
  from connect_loop_tree[OF ex wf ne, of rs k1] obtain g2 carved
    where run: "connect_loop rs (map center rooms) g1 [0] k1 [] =
             Some (Inr (g2, connAt carved (length carved), k1 + length carved, carved, False))"
      and full: "set (connAt carved (length carved)) = {..<length ?cs}"
    by auto
  from run False
  have res: "connectRoomsWithCorridors rs k1 g1 rooms = Some (Inr (g2, k1 + length carved))"
    by (simp add: connectRoomsWithCorridors_def connect_trace_def)
  note cf = carvedFrom_connect[OF rb res]
  from connect_loop_paths[OF ex run cb c0 ne] full
  have paths: "\<forall>v < length rooms. floorPath g2 (?cs ! 0) (?cs ! v)"
    by simp
  have fl2: "\<forall>r \<in> set rooms. \<forall>cx cy. inRoom r cx cy \<longrightarrow> isFloor g2 cx cy"
    using fl carvedFrom_floor[OF cf] by blast
  have "\<forall>i < length rooms.
              (\<exists>cx cy. inRoom (rooms ! i) cx cy) \<and>
              (\<forall>cx cy dx dy. inRoom (rooms ! 0) cx cy \<and> inRoom (rooms ! i) dx dy \<longrightarrow>
                 floorPath g2 (cx, cy) (dx, dy))"
  proof (intro allI impI conjI)
    fix i assume i: "i < length rooms"
    with cin show "\<exists>cx cy. inRoom (rooms ! i) cx cy" by blast
    fix cx cy dx dy
    assume h: "inRoom (rooms ! 0) cx cy \<and> inRoom (rooms ! i) dx dy"
    from False have z: "0 < length rooms" by simp
    from fl2 z have f0: "\<forall>cx cy. inRoom (rooms ! 0) cx cy \<longrightarrow> isFloor g2 cx cy"
      using nth_mem by blast
    from fl2 i have fi: "\<forall>cx cy. inRoom (rooms ! i) cx cy \<longrightarrow> isFloor g2 cx cy"
      using nth_mem by blast
    from cin z have "inRoom (rooms ! 0) (fst (?cs ! 0)) (snd (?cs ! 0))" by blast
    from room_path[OF f0 conjunct1[OF h] this]
    have 1: "floorPath g2 (cx, cy) (?cs ! 0)" by simp
    from paths i
    have 2: "floorPath g2 (?cs ! 0) (?cs ! i)" by blast
    from cin i have "inRoom (rooms ! i) (fst (?cs ! i)) (snd (?cs ! i))" by blast
    from room_path[OF fi this conjunct2[OF h]]
    have 3: "floorPath g2 (?cs ! i) (dx, dy)" by simp
    from floorPath_trans[OF floorPath_trans[OF 1 2] 3]
    show "floorPath g2 (cx, cy) (dx, dy)" .
  qed
  with res fl2 show ?thesis by blast
qed

text \<open>
  Claim C1. With draws from the unit interval and a well-formed grid, \<open>placeRooms\<close>
  and then the connector return, and in the final grid every cell of every room is
  FLOOR, every room has a cell, and a path of orthogonally adjacent FLOOR cells leads
  from every cell of room 0 to every cell of every room of the list. This holds for the
  grid and the rooms that \<open>generateDungeon\<close> returns.
\<close>

theorem rooms_connected:
  assumes "unitDraws rs" and "wfGrid grid"
  shows "(\<exists>rooms g1 k1 g2 k2.
            placeRooms rs k grid roomCount = Inr (rooms, g1, k1) \<and>
            connectRoomsWithCorridors rs k1 g1 rooms = Some (Inr (g2, k2)) \<and>
            (\<forall>r \<in> set rooms. \<forall>cx cy. inRoom r cx cy \<longrightarrow> isFloor g2 cx cy) \<and>
            (\<forall>i < length rooms.
               (\<exists>cx cy. inRoom (rooms ! i) cx cy) \<and>
               (\<forall>cx cy dx dy. inRoom (rooms ! 0) cx cy \<and> inRoom (rooms ! i) dx dy \<longrightarrow>
                  floorPath g2 (cx, cy) (dx, dy)))) \<and>
         (\<exists>d k'.
            generateDungeon rs k roomCount = Some (Inr (d, k')) \<and>
            (\<forall>i < length (d_rooms d).
               (\<exists>cx cy. inRoom (d_rooms d ! i) cx cy) \<and>
               (\<forall>cx cy dx dy. inRoom (d_rooms d ! 0) cx cy \<and> inRoom (d_rooms d ! i) dx dy \<longrightarrow>
                  floorPath (d_grid d) (cx, cy) (dx, dy))))"
proof
  from placeRooms_placed[OF assms] obtain rooms g1 k1
    where p: "placeRooms rs k grid roomCount = Inr (rooms, g1, k1)"
      and pl: "placed grid g1 rooms" by blast
  from connect_placed[OF pl, of rs k1] p
  show "\<exists>rooms g1 k1 g2 k2.
            placeRooms rs k grid roomCount = Inr (rooms, g1, k1) \<and>
            connectRoomsWithCorridors rs k1 g1 rooms = Some (Inr (g2, k2)) \<and>
            (\<forall>r \<in> set rooms. \<forall>cx cy. inRoom r cx cy \<longrightarrow> isFloor g2 cx cy) \<and>
            (\<forall>i < length rooms.
               (\<exists>cx cy. inRoom (rooms ! i) cx cy) \<and>
               (\<forall>cx cy dx dy. inRoom (rooms ! 0) cx cy \<and> inRoom (rooms ! i) dx dy \<longrightarrow>
                  floorPath g2 (cx, cy) (dx, dy)))"
    by blast
next
  from placeRooms_placed[OF assms(1) wfGrid_createGrid] obtain rooms g1 k1
    where p: "placeRooms rs k (createGrid WIDTH HEIGHT WALL) roomCount = Inr (rooms, g1, k1)"
      and pl: "placed (createGrid WIDTH HEIGHT WALL) g1 rooms" by blast
  from connect_placed[OF pl, of rs k1] obtain g2 k2
    where c: "connectRoomsWithCorridors rs k1 g1 rooms = Some (Inr (g2, k2))"
      and paths: "\<forall>i < length rooms.
               (\<exists>cx cy. inRoom (rooms ! i) cx cy) \<and>
               (\<forall>cx cy dx dy. inRoom (rooms ! 0) cx cy \<and> inRoom (rooms ! i) dx dy \<longrightarrow>
                  floorPath g2 (cx, cy) (dx, dy))"
    by blast
  from generateDungeon_result[OF p c] paths
  show "\<exists>d k'.
            generateDungeon rs k roomCount = Some (Inr (d, k')) \<and>
            (\<forall>i < length (d_rooms d).
               (\<exists>cx cy. inRoom (d_rooms d ! i) cx cy) \<and>
               (\<forall>cx cy dx dy. inRoom (d_rooms d ! 0) cx cy \<and> inRoom (d_rooms d ! i) dx dy \<longrightarrow>
                  floorPath (d_grid d) (cx, cy) (dx, dy)))"
    by simp
qed

theorem rooms_connected_witness:
  "unitDraws (\<lambda>n. if n = 6 then 1 / 2 else 0) \<and> wfGrid (createGrid WIDTH HEIGHT WALL) \<and>
   (\<exists>rooms g1 k1 g2 k2.
      placeRooms (\<lambda>n. if n = 6 then 1 / 2 else 0) 0 (createGrid WIDTH HEIGHT WALL) 2
        = Inr (rooms, g1, k1) \<and>
      rooms = [\<lparr>r_x = 2, r_y = 2, r_w = 4, r_h = 2\<rparr>, \<lparr>r_x = 30, r_y = 2, r_w = 4, r_h = 2\<rparr>] \<and>
      connectRoomsWithCorridors (\<lambda>n. if n = 6 then 1 / 2 else 0) k1 g1 rooms = Some (Inr (g2, k2)) \<and>
      floorPath g2 (2, 2) (33, 3))"
proof -
  let ?rs = "\<lambda>n :: nat. if n = 6 then 1 / 2 else (0 :: real)"
  let ?G = "createGrid WIDTH HEIGHT WALL"
  let ?rooms = "[\<lparr>r_x = 2, r_y = 2, r_w = 4, r_h = 2\<rparr>, \<lparr>r_x = 30, r_y = 2, r_w = 4, r_h = 2\<rparr>]"
  from rooms_connected[OF unitDraws_two wfGrid_createGrid[of WALL], of 0 2]
  obtain rooms g1 k1 g2 k2 where p: "placeRooms ?rs 0 ?G 2 = Inr (rooms, g1, k1)"
    and c: "connectRoomsWithCorridors ?rs k1 g1 rooms = Some (Inr (g2, k2))"
    and paths: "\<forall>i < length rooms.
               (\<exists>cx cy. inRoom (rooms ! i) cx cy) \<and>
               (\<forall>cx cy dx dy. inRoom (rooms ! 0) cx cy \<and> inRoom (rooms ! i) dx dy \<longrightarrow>
                  floorPath g2 (cx, cy) (dx, dy))"
    by (elim exE conjE) (rule that)
  from placeRooms_two p have r: "rooms = ?rooms" by auto
  have l: "1 < length rooms" by (simp add: r)
  have "inRoom (rooms ! 0) 2 2 \<and> inRoom (rooms ! 1) 33 3" by (simp add: r inRoom_def)
  with paths[THEN spec, of 1, THEN mp, OF l] have "floorPath g2 (2, 2) (33, 3)" by blast
  with p r c unitDraws_two wfGrid_createGrid[of WALL] show ?thesis by blast
qed


end
